theory Spec2Isabelle
  imports Main "HOL-Library.List_Lexorder"
begin

section \<open>Machine integers\<close>

text \<open>
  The kernel is instantiated at two integer widths: \<open>hash_t\<close> and \<open>offset_t\<close> are each
  \<open>int32_t\<close> or \<open>int64_t\<close>. Values are mathematical integers here and every
  operation the source performs in a fixed width is followed by \<open>wrap w\<close>, the value the
  two's complement machine keeps.
\<close>

definition wrap :: "nat \<Rightarrow> int \<Rightarrow> int" where
  "wrap w x = (x + 2 ^ (w - 1)) mod 2 ^ w - 2 ^ (w - 1)"

definition int_max :: "nat \<Rightarrow> int" where
  "int_max w = 2 ^ (w - 1) - 1"

text \<open>C++ integer division truncates towards zero.\<close>

definition cdiv :: "int \<Rightarrow> int \<Rightarrow> int" where
  "cdiv a b = sgn a * sgn b * (\<bar>a\<bar> div \<bar>b\<bar>)"

section \<open>Binary search\<close>

text \<open>
  \<open>find_bound\<close>: the iterator \<open>first\<close> is a position in the array \<open>arr\<close>, \<open>count\<close>
  is the length of the range still searched. The caller passes \<open>first = 0\<close> and
  \<open>count = last - first\<close>.
\<close>

function find_bound :: "bool \<Rightarrow> int list \<Rightarrow> nat \<Rightarrow> nat \<Rightarrow> int \<Rightarrow> nat" where
  "find_bound is_lower arr first count val =
     (if count > 0 then
        (let step = count div 2;
             it = first + step
         in if (if is_lower then arr ! it < val else val \<ge> arr ! it)
            then find_bound is_lower arr (it + 1) (count - (step + 1)) val
            else find_bound is_lower arr first step val)
      else first)"
  by pat_completeness auto
termination
  by (relation "measure (\<lambda>(is_lower, arr, first, count, val). count)") auto

declare find_bound.simps [simp del]

text \<open>The test of the loop of \<open>find_bound\<close>, for both instances of \<open>is_lower\<close>.\<close>

definition goes_right :: "bool \<Rightarrow> int \<Rightarrow> int \<Rightarrow> bool" where
  "goes_right is_lower val x = (if is_lower then x < val else val \<ge> x)"

section \<open>Tensors and the collaborators of the kernel\<close>

text \<open>
  The ways in which a run ends without a result: the two checks of the kernel, the
  failure of \<open>infer_size\<close>, the integer division by zero of the role selection, an
  allocation with a negative size, an \<open>index_select\<close> outside its input, and a read or
  write outside an allocated buffer.
\<close>

datatype error =
    PreconditionFailure
  | CastFailure
  | BroadcastFailure
  | DivisionByZero
  | NegativeDimension
  | IndexOutOfRange
  | MemoryFault

text \<open>
  A tensor as the kernel sees it. \<open>indices\<close> is the \<open>sparse_dim \<times> nnz\<close> index matrix,
  kept by columns: \<open>indices t ! k ! d\<close> is the entry the source reads at
  \<open>ptr_indices[k * indices_nnz_stride + d * indices_dim_stride]\<close>. \<open>vals\<close> holds the
  rows of the values tensor (one opaque row of type \<open>'v\<close> per nonzero) and \<open>vals_dim\<close>
  its rank. \<open>'d\<close> is the type of dtypes.
\<close>

record ('v, 'd) tensor =
  is_sparse :: bool
  sizes :: "int list"
  sparse_dim :: nat
  dense_dim :: nat
  indices :: "int list list"
  vals :: "'v list"
  vals_dim :: nat
  is_coalesced :: bool
  scalar_type :: 'd

definition nnz :: "('v, 'd) tensor \<Rightarrow> nat" where
  "nnz t = length (vals t)"

text \<open>
  The operations of the dense tensor library that the kernel is generic in:
  \<open>binary_op_t::apply\<close> on two value rows and the rank of its result, \<open>Tensor::to\<close>,
  \<open>at::result_type\<close>, \<open>canCast\<close>, and the addition that \<open>coalesce\<close> uses to merge
  the values of equal coordinates.
\<close>

record ('v, 'd) ops =
  apply_op :: "'v \<Rightarrow> 'v \<Rightarrow> 'v"
  apply_dim :: "nat \<Rightarrow> nat \<Rightarrow> nat"
  to_dtype :: "'d \<Rightarrow> 'v \<Rightarrow> 'v"
  result_type :: "'d \<Rightarrow> 'd \<Rightarrow> 'd"
  canCast :: "'d \<Rightarrow> 'd \<Rightarrow> bool"
  add_vals :: "'v \<Rightarrow> 'v \<Rightarrow> 'v"

text \<open>
  Modelled from the spec: \<open>coalesce\<close> of the sparse tensor container is not part of the
  kernel's file. A coalesced tensor is "sorted-by-coordinate with unique coordinates";
  the values of equal coordinates are summed. A tensor already flagged coalesced is
  returned as it is.
\<close>

fun merge_duplicates :: "('v \<Rightarrow> 'v \<Rightarrow> 'v) \<Rightarrow> (int list \<times> 'v) list \<Rightarrow> (int list \<times> 'v) list" where
  "merge_duplicates f [] = []"
| "merge_duplicates f [p] = [p]"
| "merge_duplicates f ((c1, v1) # (c2, v2) # ps) =
     (if c1 = c2 then merge_duplicates f ((c1, f v1 v2) # ps)
      else (c1, v1) # merge_duplicates f ((c2, v2) # ps))"

definition coalesce :: "('v, 'd) ops \<Rightarrow> ('v, 'd) tensor \<Rightarrow> ('v, 'd) tensor" where
  "coalesce ops t =
     (if is_coalesced t then t
      else (let ps = merge_duplicates (add_vals ops) (sort_key fst (zip (indices t) (vals t)))
            in t\<lparr>indices := map fst ps, vals := map snd ps, is_coalesced := True\<rparr>))"

text \<open>
  Modelled from the spec: \<open>contiguous_strides\<close>, the row-major strides of a shape.
\<close>

fun contiguous_strides :: "int list \<Rightarrow> int list" where
  "contiguous_strides [] = []"
| "contiguous_strides (s # ss) = prod_list ss # contiguous_strides ss"

text \<open>
  Modelled from the spec: \<open>infer_size\<close>, broadcasting-shape inference. The shapes are
  aligned at their last dimension; two sizes are compatible when they are equal or one
  of them is 1.
\<close>

fun broadcast_dims :: "int list \<Rightarrow> int list \<Rightarrow> error + int list" where
  "broadcast_dims (a # as) (b # bs) =
     (if a = b \<or> a = 1 \<or> b = 1 then
        (case broadcast_dims as bs of
           Inl e \<Rightarrow> Inl e
         | Inr r \<Rightarrow> Inr ((if a = 1 then b else a) # r))
      else Inl BroadcastFailure)"
| "broadcast_dims _ _ = Inr []"

definition infer_size :: "int list \<Rightarrow> int list \<Rightarrow> error + int list" where
  "infer_size a b =
     (let n = max (length a) (length b)
      in broadcast_dims (replicate (n - length a) 1 @ a) (replicate (n - length b) 1 @ b))"

text \<open>
  Modelled from the spec: \<open>sort(values) \<rightarrow> (sorted_values, permutation)\<close>; the
  permutation lists, for every position of the sorted array, the position the value had.
\<close>

definition sort_with_indices :: "int list \<Rightarrow> int list \<times> nat list" where
  "sort_with_indices h =
     (let perm = sort_key (\<lambda>i. h ! i) [0..<length h]
      in (map (\<lambda>i. h ! i) perm, perm))"

text \<open>
  Modelled from the spec: \<open>cumulative_sum(values, width) \<rightarrow> prefix_sums\<close> (inclusive),
  accumulated in the integer type of the given width.
\<close>

fun cumsum_from :: "nat \<Rightarrow> int \<Rightarrow> int list \<Rightarrow> int list" where
  "cumsum_from w acc [] = []"
| "cumsum_from w acc (c # cs) = (let s = wrap w (acc + wrap w c) in s # cumsum_from w s cs)"

definition cumsum :: "nat \<Rightarrow> int list \<Rightarrow> int list" where
  "cumsum w cs = cumsum_from w 0 cs"

text \<open>
  Modelled from the spec: \<open>gather(values, index_array)\<close>, index-select along the leading
  axis. An index outside of the rows is an error.
\<close>

definition index_select :: "'a list \<Rightarrow> int list \<Rightarrow> error + 'a list" where
  "index_select rows idx =
     (if list_all (\<lambda>i. 0 \<le> i \<and> i < int (length rows)) idx
      then Inr (map (\<lambda>i. rows ! nat i) idx)
      else Inl IndexOutOfRange)"

text \<open>
  Modelled from the spec: the four calls that install the result into the output tensor
  ("installs \<open>(result_indices, result_values)\<close> into the output sparse tensor with
  \<open>sparse_dim\<close>, \<open>dense_dim\<close>, \<open>shape\<close>, \<open>nnz\<close>", then sets the coalesced flag).
\<close>

definition raw_resize :: "nat \<Rightarrow> nat \<Rightarrow> int list \<Rightarrow> ('v, 'd) tensor \<Rightarrow> ('v, 'd) tensor" where
  "raw_resize sd dd shape t = t\<lparr>sizes := shape, sparse_dim := sd, dense_dim := dd\<rparr>"

definition set_indices_and_values_unsafe ::
  "int list list \<Rightarrow> 'v list \<Rightarrow> nat \<Rightarrow> ('v, 'd) tensor \<Rightarrow> ('v, 'd) tensor" where
  "set_indices_and_values_unsafe ind vs vdim t =
     t\<lparr>indices := ind, vals := vs, vals_dim := vdim, is_coalesced := False\<rparr>"

definition set_nnz_and_narrow :: "nat \<Rightarrow> ('v, 'd) tensor \<Rightarrow> ('v, 'd) tensor" where
  "set_nnz_and_narrow n t = t\<lparr>indices := take n (indices t), vals := take n (vals t)\<rparr>"

definition set_coalesced :: "bool \<Rightarrow> ('v, 'd) tensor \<Rightarrow> ('v, 'd) tensor" where
  "set_coalesced b t = t\<lparr>is_coalesced := b\<rparr>"

section \<open>The kernel\<close>

subsection \<open>Roles\<close>

text \<open>
  \<open>std::accumulate\<close> is called with the initial value \<open>1\<close> of type \<open>int\<close>: every
  product is formed in \<open>int64_t\<close> and stored back into an \<open>int\<close> accumulator.
\<close>

definition sparse_dim_numel :: "int list \<Rightarrow> nat \<Rightarrow> int" where
  "sparse_dim_numel larger_sizes sd =
     fold (\<lambda>s acc. wrap 32 (wrap 64 (acc * s))) (take sd larger_sizes) 1"

definition MAX_COPIES_PER_THREAD :: int where
  "MAX_COPIES_PER_THREAD = 50"

text \<open>The result is the pair \<open>(probably_coalesced, source)\<close>.\<close>

definition select_roles ::
  "('v, 'd) ops \<Rightarrow> ('v, 'd) tensor \<Rightarrow> ('v, 'd) tensor
   \<Rightarrow> error + (('v, 'd) tensor \<times> ('v, 'd) tensor)" where
  "select_roles ops x y =
     (if is_coalesced x \<noteq> is_coalesced y then
        Inr (if is_coalesced x then (x, y) else (y, x))
      else
        (let (larger, smaller) = (if nnz x \<ge> nnz y then (x, y) else (y, x));
             numel = sparse_dim_numel (sizes larger) (sparse_dim larger)
         in if numel = 0 then Inl DivisionByZero
            else (let max_count_lower_bound = cdiv (int (nnz larger)) numel
                  in Inr (if max_count_lower_bound > MAX_COPIES_PER_THREAD
                          then (coalesce ops larger, smaller)
                          else (larger, smaller)))))"

subsection \<open>Hashing\<close>

text \<open>\<open>hash_coeffs[i] = strides[i]\<close>, stored with the dtype \<open>kHash\<close>.\<close>

definition hash_coeffs :: "nat \<Rightarrow> int list \<Rightarrow> nat \<Rightarrow> int list" where
  "hash_coeffs hw broadcasted_shape sd =
     map (wrap hw) (contiguous_strides (take sd broadcasted_shape))"

text \<open>The body of both hashing loops: \<open>hash += dim_index * dim_hash_coeff\<close> in \<open>hash_t\<close>.\<close>

definition compute_hash :: "nat \<Rightarrow> int list \<Rightarrow> nat \<Rightarrow> int list \<Rightarrow> int" where
  "compute_hash hw coeffs sdim col =
     fold (\<lambda>dim hash. wrap hw (hash + wrap hw (wrap hw (col ! dim) * (coeffs ! dim))))
          [0..<sdim] 0"

definition indices_hash :: "nat \<Rightarrow> int list \<Rightarrow> nat \<Rightarrow> ('v, 'd) tensor \<Rightarrow> int list" where
  "indices_hash hw coeffs sdim t =
     map (\<lambda>nnz_idx. compute_hash hw coeffs sdim (indices t ! nnz_idx)) [0..<nnz t]"

subsection \<open>Sorting the hashes\<close>

definition sort_stage :: "('v, 'd) tensor \<Rightarrow> int list \<Rightarrow> int list \<times> nat list" where
  "sort_stage probably_coalesced hash =
     (if is_coalesced probably_coalesced
      then (hash, [0..<nnz probably_coalesced])
      else sort_with_indices hash)"

subsection \<open>Hash intersection\<close>

text \<open>The pair \<open>(intersection_count[k], intersection_first_idx[k])\<close>, stored as \<open>hash_t\<close>.\<close>

definition intersect_one :: "nat \<Rightarrow> int list \<Rightarrow> nat \<Rightarrow> int list \<Rightarrow> int list \<Rightarrow> int \<times> int" where
  "intersect_one hw coeffs sdim sorted_hash col =
     (let hash = compute_hash hw coeffs sdim col;
          lb = find_bound True sorted_hash 0 (length sorted_hash) hash;
          ub = find_bound False sorted_hash 0 (length sorted_hash) hash
      in (wrap hw (int ub - int lb), wrap hw (int lb)))"

definition hash_intersection ::
  "nat \<Rightarrow> int list \<Rightarrow> nat \<Rightarrow> ('v, 'd) tensor \<Rightarrow> int list \<Rightarrow> int list \<times> int list" where
  "hash_intersection hw coeffs sdim source sorted_hash =
     (let recs = map (\<lambda>nnz_idx. intersect_one hw coeffs sdim sorted_hash (indices source ! nnz_idx))
                     [0..<nnz source]
      in (map fst recs, map snd recs))"

subsection \<open>Selecting the matched positions\<close>

text \<open>
  The three output buffers come from \<open>at::empty\<close>: a slot holds \<open>None\<close> until it is
  written. A store outside of a buffer, and a read of \<open>argsort\<close> outside of it, is a
  memory fault.
\<close>

record selected =
  selected_source :: "int option list"
  selected_probably_coalesced :: "int option list"
  selected_source_sparse_indices :: "int list option list"

definition store :: "'a option list \<Rightarrow> int \<Rightarrow> 'a \<Rightarrow> error + 'a option list" where
  "store buf p v =
     (if 0 \<le> p \<and> p < int (length buf) then Inr (buf[nat p := Some v]) else Inl MemoryFault)"

text \<open>
  The inner loop \<open>for (hash_t i = 0; i < count; ++i)\<close>: \<open>n\<close> iterations remain, \<open>out\<close>
  is the position of the three output pointers, \<open>q\<close> that of \<open>ptr_argsort_idx\<close>.
\<close>

fun copy_matches ::
  "nat \<Rightarrow> nat \<Rightarrow> nat list \<Rightarrow> int list \<Rightarrow> nat \<Rightarrow> int \<Rightarrow> int \<Rightarrow> int \<Rightarrow> selected
   \<Rightarrow> error + selected" where
  "copy_matches hw sdim argsort src_col 0 idx out q bufs = Inr bufs"
| "copy_matches hw sdim argsort src_col (Suc n) idx out q bufs =
     (if \<not> (0 \<le> q \<and> q < int (length argsort)) then Inl MemoryFault
      else
        (case store (selected_source bufs) out (wrap hw idx) of
           Inl e \<Rightarrow> Inl e
         | Inr b1 \<Rightarrow>
        (case store (selected_probably_coalesced bufs) out (wrap hw (int (argsort ! nat q))) of
           Inl e \<Rightarrow> Inl e
         | Inr b2 \<Rightarrow>
        (case store (selected_source_sparse_indices bufs) out
                (map (\<lambda>d. src_col ! d) [0..<sdim]) of
           Inl e \<Rightarrow> Inl e
         | Inr b3 \<Rightarrow>
             copy_matches hw sdim argsort src_col n idx (out + 1) (q + 1)
               \<lparr>selected_source = b1, selected_probably_coalesced = b2,
                selected_source_sparse_indices = b3\<rparr>))))"

text \<open>The kernel body for the source nonzero \<open>idx\<close>.\<close>

definition gather_task ::
  "nat \<Rightarrow> nat \<Rightarrow> nat \<Rightarrow> nat list \<Rightarrow> int list list \<Rightarrow> nat \<Rightarrow> int \<Rightarrow> int \<Rightarrow> int \<Rightarrow> selected
   \<Rightarrow> error + selected" where
  "gather_task hw ow sdim argsort src_cols idx count first_match_idx shifted_offset bufs =
     (let offset = wrap ow (shifted_offset - wrap ow count)
      in copy_matches hw sdim argsort (src_cols ! idx) (nat count) (int idx)
           offset first_match_idx bufs)"

text \<open>The launch runs the body for every source nonzero.\<close>

fun launch_gather ::
  "(nat \<Rightarrow> selected \<Rightarrow> error + selected) \<Rightarrow> nat list \<Rightarrow> selected \<Rightarrow> error + selected" where
  "launch_gather f [] bufs = Inr bufs"
| "launch_gather f (k # ks) bufs =
     (case f k bufs of Inl e \<Rightarrow> Inl e | Inr b \<Rightarrow> launch_gather f ks b)"

definition initialized :: "'a option list \<Rightarrow> error + 'a list" where
  "initialized buf =
     (if list_all (\<lambda>x. x \<noteq> None) buf then Inr (map the buf) else Inl MemoryFault)"

definition intersection_nnz :: "int list \<Rightarrow> int" where
  "intersection_nnz shifted_offset =
     (if length shifted_offset \<noteq> 0 then last shifted_offset else 0)"

text \<open>
  The result is \<open>(selected_source, selected_source_sparse_indices,
  selected_probably_coalesced)\<close>.
\<close>

definition select_matches ::
  "nat \<Rightarrow> nat \<Rightarrow> nat \<Rightarrow> ('v, 'd) tensor \<Rightarrow> nat list \<Rightarrow> int list \<Rightarrow> int list
   \<Rightarrow> error + (int list \<times> int list list \<times> int list)" where
  "select_matches hw ow sdim source argsort_hash intersection_count intersection_first_idx =
     (let shifted_offset = cumsum ow intersection_count;
          n = intersection_nnz shifted_offset
      in if n < 0 then Inl NegativeDimension
         else
           (case launch_gather
                   (\<lambda>idx. gather_task hw ow sdim argsort_hash (indices source) idx
                            (intersection_count ! idx) (intersection_first_idx ! idx)
                            (shifted_offset ! idx))
                   [0..<nnz source]
                   \<lparr>selected_source = replicate (nat n) None,
                    selected_probably_coalesced = replicate (nat n) None,
                    selected_source_sparse_indices = replicate (nat n) None\<rparr> of
              Inl e \<Rightarrow> Inl e
            | Inr bufs \<Rightarrow>
           (case initialized (selected_source bufs) of Inl e \<Rightarrow> Inl e | Inr s \<Rightarrow>
           (case initialized (selected_source_sparse_indices bufs) of Inl e \<Rightarrow> Inl e | Inr si \<Rightarrow>
           (case initialized (selected_probably_coalesced bufs) of Inl e \<Rightarrow> Inl e | Inr p \<Rightarrow>
              Inr (s, si, p))))))"

subsection \<open>The implementation and the entry point\<close>

text \<open>
  \<open>hw\<close> and \<open>ow\<close> are the widths of \<open>hash_t\<close> and \<open>offset_t\<close>. The result is the
  error raised, if any, and the state of \<open>res\<close> at that moment.
\<close>

definition kernel_impl ::
  "('v, 'd) ops \<Rightarrow> nat \<Rightarrow> nat \<Rightarrow> ('v, 'd) tensor \<Rightarrow> ('v, 'd) tensor \<Rightarrow> ('v, 'd) tensor
   \<Rightarrow> int list \<Rightarrow> bool \<Rightarrow> error option \<times> ('v, 'd) tensor" where
  "kernel_impl ops hw ow res x_in y_in broadcasted_shape is_commutative =
     (let common_dtype = result_type ops (scalar_type x_in) (scalar_type y_in)
      in if \<not> canCast ops common_dtype (scalar_type res) then (Some CastFailure, res)
         else
           (let x = (if is_commutative then x_in else coalesce ops x_in);
                y = (if is_commutative then y_in else coalesce ops y_in)
            in case select_roles ops x y of
                 Inl e \<Rightarrow> (Some e, res)
               | Inr (probably_coalesced, source) \<Rightarrow>
                   (let sdim = sparse_dim probably_coalesced;
                        coeffs = hash_coeffs hw broadcasted_shape sdim;
                        probably_coalesced_indices_hash =
                          indices_hash hw coeffs sdim probably_coalesced;
                        (sorted_hash, argsort_hash) =
                          sort_stage probably_coalesced probably_coalesced_indices_hash;
                        (intersection_count, intersection_first_idx) =
                          hash_intersection hw coeffs sdim source sorted_hash
                    in case select_matches hw ow sdim source argsort_hash
                              intersection_count intersection_first_idx of
                         Inl e \<Rightarrow> (Some e, res)
                       | Inr (sel_source, res_indices, sel_probably_coalesced) \<Rightarrow>
                     (case index_select (vals source) sel_source of
                         Inl e \<Rightarrow> (Some e, res)
                       | Inr selected_source_values \<Rightarrow>
                     (case index_select (vals probably_coalesced) sel_probably_coalesced of
                         Inl e \<Rightarrow> (Some e, res)
                       | Inr selected_probably_coalesced_values \<Rightarrow>
                         (let res_values =
                                map (to_dtype ops (scalar_type res))
                                    (map2 (apply_op ops) selected_source_values
                                          selected_probably_coalesced_values);
                              res_values_dim =
                                apply_dim ops (vals_dim source) (vals_dim probably_coalesced);
                              res_sparse_dim = sparse_dim source;
                              res_dense_dim = res_values_dim - 1;
                              res_shape = broadcasted_shape;
                              res_nnz = length selected_source_values
                          in (None,
                              set_coalesced (is_coalesced source \<and> is_coalesced probably_coalesced)
                                (set_nnz_and_narrow res_nnz
                                  (set_indices_and_values_unsafe res_indices res_values
                                       res_values_dim
                                    (raw_resize res_sparse_dim res_dense_dim res_shape
                                       res))))))))))"

definition precondition :: "('v, 'd) tensor \<Rightarrow> ('v, 'd) tensor \<Rightarrow> bool" where
  "precondition x y \<longleftrightarrow>
     (is_sparse x \<and> is_sparse y)
     \<and> length (sizes x) = length (sizes y) \<and> sparse_dim x = sparse_dim y
     \<and> take (sparse_dim x) (sizes x) = take (sparse_dim y) (sizes y)"

definition max_hash_val :: "int list \<Rightarrow> nat \<Rightarrow> int" where
  "max_hash_val broadcasted_shape sd =
     fold (\<lambda>d m. wrap 64 (m * broadcasted_shape ! d)) [0..<sd] 1"

definition is_max_hash_32bits :: "int list \<Rightarrow> nat \<Rightarrow> bool" where
  "is_max_hash_32bits broadcasted_shape sd \<longleftrightarrow> max_hash_val broadcasted_shape sd \<le> int_max 32"

definition is_max_offset_32bits :: "('v, 'd) tensor \<Rightarrow> ('v, 'd) tensor \<Rightarrow> bool" where
  "is_max_offset_32bits x y \<longleftrightarrow> wrap 64 (int (nnz x) * int (nnz y)) \<le> int_max 32"

text \<open>
  The four branches of the entry point call the same implementation and differ in the
  template arguments \<open>hash_t\<close> and \<open>offset_t\<close> only; \<open>dispatch_widths\<close> is that chain
  of branches, with the widths of the two types as its result.
\<close>

definition dispatch_widths :: "bool \<Rightarrow> bool \<Rightarrow> nat \<times> nat" where
  "dispatch_widths h32 o32 =
     (if h32 \<and> o32 then (32, 32)
      else if h32 \<and> \<not> o32 then (32, 64)
      else if \<not> h32 \<and> o32 then (64, 32)
      else (64, 64))"

definition kernel_out ::
  "('v, 'd) ops \<Rightarrow> ('v, 'd) tensor \<Rightarrow> ('v, 'd) tensor \<Rightarrow> ('v, 'd) tensor \<Rightarrow> bool
   \<Rightarrow> error option \<times> ('v, 'd) tensor" where
  "kernel_out ops res x y is_commutative =
     (if \<not> precondition x y then (Some PreconditionFailure, res)
      else
        (case infer_size (sizes x) (sizes y) of
           Inl e \<Rightarrow> (Some e, res)
         | Inr broadcasted_shape \<Rightarrow>
             (let (hw, ow) = dispatch_widths
                               (is_max_hash_32bits broadcasted_shape (sparse_dim x))
                               (is_max_offset_32bits x y)
              in kernel_impl ops hw ow res x y broadcasted_shape is_commutative)))"

section \<open>Notions of the specification\<close>

text \<open>
  The coordinate space of a shape: one coordinate per dimension, each within its size.
\<close>

definition in_shape :: "int list \<Rightarrow> int list \<Rightarrow> bool" where
  "in_shape shape col \<longleftrightarrow> list_all2 (\<lambda>c s. 0 \<le> c \<and> c < s) col shape"

text \<open>The map \<open>coord \<rightarrow> \<Sum> coord[d] * stride[d]\<close> over the row-major strides of a shape.\<close>

definition stride_hash :: "int list \<Rightarrow> int list \<Rightarrow> int" where
  "stride_hash shape col = sum_list (map2 (*) col (contiguous_strides shape))"

text \<open>A buffer whose first slots are written and whose last \<open>r\<close> slots are not.\<close>

definition filled :: "'a list \<Rightarrow> nat \<Rightarrow> 'a option list" where
  "filled xs r = map Some xs @ replicate r None"

text \<open>
  The concrete scenario of the specification: multiplication of integer values,
  \<open>x\<close> with the coordinates 0, 2, 4 (coalesced) and \<open>y\<close> with the coordinates 2, 2, 5
  (not coalesced) in a shape of size 6. A dtype is the rank of a type in the promotion
  order.
\<close>

definition mul_ops :: "(int, nat) ops" where
  "mul_ops = \<lparr>apply_op = (*), apply_dim = max, to_dtype = (\<lambda>d v. v), result_type = max,
              canCast = (\<le>), add_vals = (+)\<rparr>"

definition sparse1 :: "int list \<Rightarrow> int list list \<Rightarrow> int list \<Rightarrow> bool \<Rightarrow> (int, nat) tensor" where
  "sparse1 shape cols vs coalesced =
     \<lparr>is_sparse = True, sizes = shape, sparse_dim = 1, dense_dim = 0, indices = cols,
      vals = vs, vals_dim = 1, is_coalesced = coalesced, scalar_type = 0\<rparr>"

definition scenario_x :: "(int, nat) tensor" where
  "scenario_x = sparse1 [6] [[0], [2], [4]] [1, 2, 3] True"

definition scenario_y :: "(int, nat) tensor" where
  "scenario_y = sparse1 [6] [[2], [2], [5]] [10, 20, 30] False"

definition scenario_res :: "(int, nat) tensor" where
  "scenario_res = sparse1 [1] [[0]] [99] True"

text \<open>The four calls that install the result, in the order of the source.\<close>

definition install ::
  "nat \<Rightarrow> nat \<Rightarrow> int list \<Rightarrow> int list list \<Rightarrow> 'v list \<Rightarrow> nat \<Rightarrow> bool
   \<Rightarrow> ('v, 'd) tensor \<Rightarrow> ('v, 'd) tensor" where
  "install sd vdim shape ind vs n flag res =
     set_coalesced flag
       (set_nnz_and_narrow n
         (set_indices_and_values_unsafe ind vs vdim
           (raw_resize sd (vdim - 1) shape res)))"

text \<open>
  The data invariant of a sparse tensor: one value row per index column, every
  coordinate within the sparse sizes, and, if the tensor is flagged coalesced, the
  index columns in strictly ascending lexicographic order.
\<close>

definition valid_sparse :: "('v, 'd) tensor \<Rightarrow> bool" where
  "valid_sparse t \<longleftrightarrow>
     is_sparse t \<and> sparse_dim t \<le> length (sizes t)
     \<and> length (indices t) = length (vals t)
     \<and> list_all (in_shape (take (sparse_dim t) (sizes t))) (indices t)
     \<and> (is_coalesced t \<longrightarrow> sorted_wrt (<) (indices t))"

text \<open>
  The width of \<open>hash_t\<close> that suits a broadcasted shape, and the condition that every
  integer of a run is representable in the type the source gives it: the products that
  the entry point forms fit \<open>int64_t\<close>, and the positions of the nonzeros of both
  inputs fit \<open>hash_t\<close>, the type in which the join stores positions and counts.
\<close>

definition hash_width :: "int list \<Rightarrow> nat \<Rightarrow> nat" where
  "hash_width bshape sd = (if prod_list (take sd bshape) \<le> int_max 32 then 32 else 64)"

definition offset_width :: "('v, 'd) tensor \<Rightarrow> ('v, 'd) tensor \<Rightarrow> nat" where
  "offset_width x y = (if int (nnz x) * int (nnz y) \<le> int_max 32 then 32 else 64)"

definition representable :: "('v, 'd) tensor \<Rightarrow> ('v, 'd) tensor \<Rightarrow> int list \<Rightarrow> bool" where
  "representable x y bshape \<longleftrightarrow>
     list_all (\<lambda>n. \<bar>prod_list (take n bshape)\<bar> \<le> int_max 64) [0..<Suc (sparse_dim x)]
     \<and> int (nnz x) * int (nnz y) \<le> int_max 64
     \<and> int (nnz x) \<le> int_max (hash_width bshape (sparse_dim x))
     \<and> int (nnz y) \<le> int_max (hash_width bshape (sparse_dim x))"



text \<open>
  Two coalesced matrices of sizes \<open>65536 \<times> 65536\<close> with one nonzero each, at different
  coordinates. The product of the sparse sizes is \<open>2 ^ 32\<close>.
\<close>

definition wide_x :: "(int, nat) tensor" where
  "wide_x = \<lparr>is_sparse = True, sizes = [65536, 65536], sparse_dim = 2, dense_dim = 0,
              indices = [[0, 0]], vals = [3], vals_dim = 1, is_coalesced = True,
              scalar_type = 0\<rparr>"

definition wide_y :: "(int, nat) tensor" where
  "wide_y = \<lparr>is_sparse = True, sizes = [65536, 65536], sparse_dim = 2, dense_dim = 0,
              indices = [[1, 1]], vals = [4], vals_dim = 1, is_coalesced = True,
              scalar_type = 0\<rparr>"

section \<open>Properties of the binary search\<close>

lemma goes_right_mono: "x \<le> y \<Longrightarrow> goes_right b val y \<Longrightarrow> goes_right b val x"
  by (auto simp: goes_right_def)

lemma find_bound_unfold:
  "find_bound b arr first count val =
     (if count > 0 then
        (if goes_right b val (arr ! (first + count div 2))
         then find_bound b arr (first + count div 2 + 1) (count - (count div 2 + 1)) val
         else find_bound b arr first (count div 2) val)
      else first)"
  by (subst find_bound.simps) (simp add: Let_def goes_right_def)

lemma find_bound_partition:
  assumes "sorted arr"
  shows "first + count \<le> length arr
   \<Longrightarrow> (\<forall>i < first. goes_right b val (arr ! i))
   \<Longrightarrow> (\<forall>i. first + count \<le> i \<and> i < length arr \<longrightarrow> \<not> goes_right b val (arr ! i))
   \<Longrightarrow> first \<le> find_bound b arr first count val
       \<and> find_bound b arr first count val \<le> first + count
       \<and> (\<forall>i < find_bound b arr first count val. goes_right b val (arr ! i))
       \<and> (\<forall>i. find_bound b arr first count val \<le> i \<and> i < length arr
              \<longrightarrow> \<not> goes_right b val (arr ! i))"
proof (induction count arbitrary: first rule: less_induct)
  case (less count)
  show ?case
  proof (cases "count > 0")
    case False
    then have "find_bound b arr first count val = first"
      by (subst find_bound_unfold) simp
    with less.prems False show ?thesis by simp
  next
    case True
    define step where "step = count div 2"
    define it where "it = first + step"
    have step_lt: "step < count" using True by (simp add: step_def)
    have it_lt: "it < length arr" using less.prems(1) step_lt by (simp add: it_def)
    show ?thesis
    proof (cases "goes_right b val (arr ! it)")
      case right: True
      have below: "\<forall>i < it + 1. goes_right b val (arr ! i)"
      proof (intro allI impI)
        fix i assume "i < it + 1"
        then have "i \<le> it" by simp
        then have "arr ! i \<le> arr ! it"
          using assms it_lt by (simp add: sorted_iff_nth_mono)
        then show "goes_right b val (arr ! i)" using right by (rule goes_right_mono)
      qed
      have rest: "count - (step + 1) < count" using True by simp
      have bound: "it + 1 + (count - (step + 1)) \<le> length arr"
        using less.prems(1) step_lt by (simp add: it_def)
      have above: "\<forall>i. it + 1 + (count - (step + 1)) \<le> i \<and> i < length arr
                      \<longrightarrow> \<not> goes_right b val (arr ! i)"
        using less.prems(3) step_lt by (simp add: it_def)
      have eq: "find_bound b arr first count val
                = find_bound b arr (it + 1) (count - (step + 1)) val"
        using True right by (subst find_bound_unfold) (simp add: step_def it_def)
      have "it + 1 + (count - (step + 1)) = first + count"
        using step_lt by (simp add: it_def)
      with less.IH [OF rest bound below above]
      show ?thesis unfolding eq by (auto simp: it_def)
    next
      case left: False
      have above: "\<forall>i. first + step \<le> i \<and> i < length arr \<longrightarrow> \<not> goes_right b val (arr ! i)"
      proof (intro allI impI)
        fix i assume i: "first + step \<le> i \<and> i < length arr"
        then have "arr ! it \<le> arr ! i"
          using assms by (simp add: sorted_iff_nth_mono it_def)
        then show "\<not> goes_right b val (arr ! i)"
          using left goes_right_mono by blast
      qed
      have bound: "first + step \<le> length arr" using it_lt by (simp add: it_def)
      have eq: "find_bound b arr first count val = find_bound b arr first step val"
        using True left by (subst find_bound_unfold) (simp add: step_def it_def)
      from less.IH [OF step_lt bound less.prems(2) above]
      show ?thesis unfolding eq using step_lt by auto
    qed
  qed
qed

lemma find_bound_whole:
  assumes "sorted arr"
  shows "find_bound b arr 0 (length arr) val \<le> length arr"
    and "i < find_bound b arr 0 (length arr) val \<Longrightarrow> goes_right b val (arr ! i)"
    and "find_bound b arr 0 (length arr) val \<le> i \<Longrightarrow> i < length arr
         \<Longrightarrow> \<not> goes_right b val (arr ! i)"
proof -
  have a: "0 + length arr \<le> length arr" by simp
  have b: "\<forall>i < (0::nat). goes_right b val (arr ! i)" by simp
  have c: "\<forall>i. 0 + length arr \<le> i \<and> i < length arr \<longrightarrow> \<not> goes_right b val (arr ! i)"
    by (intro allI impI) linarith
  note * = find_bound_partition [OF assms a b c]
  from * show "find_bound b arr 0 (length arr) val \<le> length arr" by simp
  from * show "i < find_bound b arr 0 (length arr) val \<Longrightarrow> goes_right b val (arr ! i)"
    by blast
  from * show "find_bound b arr 0 (length arr) val \<le> i \<Longrightarrow> i < length arr
         \<Longrightarrow> \<not> goes_right b val (arr ! i)"
    by blast
qed

section \<open>Wrap-around\<close>

lemma wrap_id: "0 < w \<Longrightarrow> - (2 ^ (w - 1)) \<le> x \<Longrightarrow> x \<le> int_max w \<Longrightarrow> wrap w x = x"
proof -
  assume w: "0 < w" and lo: "- (2 ^ (w - 1)) \<le> x" and hi: "x \<le> int_max w"
  have p: "(2::int) ^ w = 2 * 2 ^ (w - 1)"
    using w by (cases w) simp_all
  have "0 \<le> x + 2 ^ (w - 1)" using lo by simp
  moreover have "x + 2 ^ (w - 1) < 2 ^ w" using hi by (simp add: p int_max_def)
  ultimately have "(x + 2 ^ (w - 1)) mod 2 ^ w = x + 2 ^ (w - 1)"
    by (rule mod_pos_pos_trivial)
  then show ?thesis by (simp add: wrap_def)
qed

lemma wrap_nonneg_id: "0 < w \<Longrightarrow> 0 \<le> x \<Longrightarrow> x \<le> int_max w \<Longrightarrow> wrap w x = x"
  by (rule wrap_id) (auto intro: order_trans [of _ 0])

lemma int_max_mono: "int_max 32 \<le> int_max 64"
  by (simp add: int_max_def)

section \<open>The match range of a hash value\<close>

lemma find_bound_span:
  assumes "sorted arr"
  shows "find_bound True arr 0 (length arr) v \<le> find_bound False arr 0 (length arr) v
       \<and> find_bound False arr 0 (length arr) v \<le> length arr
       \<and> (\<forall>i < length arr. (i < find_bound True arr 0 (length arr) v \<longleftrightarrow> arr ! i < v))
       \<and> (\<forall>i < length arr. (i < find_bound False arr 0 (length arr) v \<longleftrightarrow> arr ! i \<le> v))
       \<and> (\<forall>i < length arr. (arr ! i = v \<longleftrightarrow>
              find_bound True arr 0 (length arr) v \<le> i
              \<and> i < find_bound False arr 0 (length arr) v))"
proof -
  define lb where "lb = find_bound True arr 0 (length arr) v"
  define ub where "ub = find_bound False arr 0 (length arr) v"
  note L = find_bound_whole [OF assms, where b = True and val = v, folded lb_def]
  note U = find_bound_whole [OF assms, where b = False and val = v, folded ub_def]
  have l: "\<forall>i < length arr. (i < lb \<longleftrightarrow> arr ! i < v)"
    using L(2) L(3) by (simp add: goes_right_def) (metis not_less)
  have u: "\<forall>i < length arr. (i < ub \<longleftrightarrow> arr ! i \<le> v)"
    using U(2) U(3) by (simp add: goes_right_def) (metis not_less)
  have le: "lb \<le> ub"
  proof (rule ccontr)
    assume "\<not> lb \<le> ub"
    then have "ub < lb" by simp
    with L(1) have "ub < length arr" by simp
    with u l \<open>ub < lb\<close> show False by force
  qed
  have span: "\<forall>i < length arr. (arr ! i = v \<longleftrightarrow> lb \<le> i \<and> i < ub)"
    using l u by (metis not_less order_less_le)
  show ?thesis using le U(1) l u span unfolding lb_def ub_def by blast
qed

lemma intersect_one_eq:
  assumes "sorted arr" and "0 < hw" and "int (length arr) \<le> int_max hw"
  shows "intersect_one hw coeffs sdim arr col =
           (int (find_bound False arr 0 (length arr) (compute_hash hw coeffs sdim col))
              - int (find_bound True arr 0 (length arr) (compute_hash hw coeffs sdim col)),
            int (find_bound True arr 0 (length arr) (compute_hash hw coeffs sdim col)))"
proof -
  define h where "h = compute_hash hw coeffs sdim col"
  define lb where "lb = find_bound True arr 0 (length arr) h"
  define ub where "ub = find_bound False arr 0 (length arr) h"
  from find_bound_span [OF assms(1), of h]
  have le: "lb \<le> ub" and ub: "ub \<le> length arr"
    by (simp_all add: lb_def ub_def)
  have "wrap hw (int ub - int lb) = int ub - int lb"
    using le ub assms(3) by (intro wrap_nonneg_id [OF assms(2)]) simp_all
  moreover have "wrap hw (int lb) = int lb"
    using le ub assms(3) by (intro wrap_nonneg_id [OF assms(2)]) simp_all
  ultimately show ?thesis
    by (simp add: intersect_one_def Let_def h_def lb_def ub_def)
qed

text \<open>
  Claim C5. On an array sorted in nondecreasing order, \<open>find_bound\<close> with
  \<open>is_lower = true\<close> returns the first position whose element is \<open>\<ge>\<close> the value
  (exactly the positions before it hold smaller elements), and with \<open>is_lower = false\<close>
  the first position whose element is \<open>>\<close> the value. Hence the record that the join
  stores for a source nonzero, \<open>count = ub - lb\<close> and \<open>first_match_idx = lb\<close>, delimits
  exactly the positions of the sorted probe hashes that hold the hash of the source
  nonzero (the positions of an array are representable in \<open>hash_t\<close>).
\<close>

theorem find_bound_match_range:
  assumes "sorted arr"
  shows "find_bound True arr 0 (length arr) v \<le> length arr
       \<and> find_bound False arr 0 (length arr) v \<le> length arr
       \<and> (\<forall>i < length arr. (i < find_bound True arr 0 (length arr) v \<longleftrightarrow> arr ! i < v))
       \<and> (\<forall>i < length arr. (i < find_bound False arr 0 (length arr) v \<longleftrightarrow> arr ! i \<le> v))
       \<and> (0 < hw \<and> int (length arr) \<le> int_max hw \<longrightarrow>
            (\<forall>i < length arr.
               (arr ! i = compute_hash hw coeffs sdim col \<longleftrightarrow>
                  snd (intersect_one hw coeffs sdim arr col) \<le> int i
                  \<and> int i < snd (intersect_one hw coeffs sdim arr col)
                            + fst (intersect_one hw coeffs sdim arr col)))
            \<and> 0 \<le> fst (intersect_one hw coeffs sdim arr col)
            \<and> snd (intersect_one hw coeffs sdim arr col)
                + fst (intersect_one hw coeffs sdim arr col) \<le> int (length arr))"
proof -
  note A = find_bound_span [OF assms, of v]
  have a1: "find_bound True arr 0 (length arr) v \<le> length arr" using A by linarith
  have a2: "find_bound False arr 0 (length arr) v \<le> length arr" using A by linarith
  have a3: "\<forall>i < length arr. (i < find_bound True arr 0 (length arr) v \<longleftrightarrow> arr ! i < v)"
    using A by (elim conjE)
  have a4: "\<forall>i < length arr. (i < find_bound False arr 0 (length arr) v \<longleftrightarrow> arr ! i \<le> v)"
    using A by (elim conjE)
  have a5: "(\<forall>i < length arr.
               (arr ! i = compute_hash hw coeffs sdim col \<longleftrightarrow>
                  snd (intersect_one hw coeffs sdim arr col) \<le> int i
                  \<and> int i < snd (intersect_one hw coeffs sdim arr col)
                            + fst (intersect_one hw coeffs sdim arr col)))
            \<and> 0 \<le> fst (intersect_one hw coeffs sdim arr col)
            \<and> snd (intersect_one hw coeffs sdim arr col)
                + fst (intersect_one hw coeffs sdim arr col) \<le> int (length arr)"
    if hw: "0 < hw \<and> int (length arr) \<le> int_max hw"
  proof -
    note B = find_bound_span [OF assms, of "compute_hash hw coeffs sdim col"]
    from hw have hw1: "0 < hw" and hw2: "int (length arr) \<le> int_max hw" by simp_all
    show ?thesis
      unfolding intersect_one_eq [OF assms hw1 hw2] using B by auto
  qed
  show ?thesis
    apply (intro conjI impI)
          apply (rule a1)
         apply (rule a2)
        apply (rule a3)
       apply (rule a4)
      apply (erule a5 [THEN conjunct1])
     apply (erule a5 [THEN conjunct2, THEN conjunct1])
    apply (erule a5 [THEN conjunct2, THEN conjunct2])
    done
qed

theorem find_bound_match_range_witness:
  "sorted [1, 3, 3, 7 :: int]
   \<and> (0::nat) < 32 \<and> int (length [1, 3, 3, 7 :: int]) \<le> int_max 32
   \<and> find_bound True [1, 3, 3, 7] 0 (length [1, 3, 3, 7 :: int]) 3 = 1
   \<and> find_bound False [1, 3, 3, 7] 0 (length [1, 3, 3, 7 :: int]) 3 = 3
   \<and> compute_hash 32 [1] 1 [3] = 3
   \<and> intersect_one 32 [1] 1 [1, 3, 3, 7] [3] = (2, 1)
   \<and> (2 < find_bound True [1, 3, 3, 7] 0 (length [1, 3, 3, 7 :: int]) 3)
        = ([1, 3, 3, 7 :: int] ! 2 < 3)
   \<and> (2 < find_bound False [1, 3, 3, 7] 0 (length [1, 3, 3, 7 :: int]) 3)
        = ([1, 3, 3, 7 :: int] ! 2 \<le> 3)
   \<and> ([1, 3, 3, 7] ! 2 = compute_hash 32 [1] 1 [3])
        = (snd (intersect_one 32 [1] 1 [1, 3, 3, 7] [3]) \<le> int 2
           \<and> int 2 < snd (intersect_one 32 [1] 1 [1, 3, 3, 7] [3])
                       + fst (intersect_one 32 [1] 1 [1, 3, 3, 7] [3]))"
proof -
  have s: "sorted [1, 3, 3, 7 :: int]" by simp
  have l: "find_bound True [1, 3, 3, 7] 0 (length [1, 3, 3, 7 :: int]) 3 = 1" by code_simp
  have u: "find_bound False [1, 3, 3, 7] 0 (length [1, 3, 3, 7 :: int]) 3 = 3" by code_simp
  have w: "(0::nat) < 32 \<and> int (length [1, 3, 3, 7 :: int]) \<le> int_max 32"
    by (simp add: int_max_def)
  have h: "compute_hash 32 [1] 1 [3] = 3" by code_simp
  have i: "intersect_one 32 [1] 1 [1, 3, 3, 7] [3] = (2, 1)" by code_simp
  have two: "(2::nat) < length [1, 3, 3, 7 :: int]" by simp
  note T = find_bound_match_range [OF s, of 3 32 "[1]" 1 "[3]"]
  from T two have a:
    "(2 < find_bound True [1, 3, 3, 7] 0 (length [1, 3, 3, 7 :: int]) 3)
        = ([1, 3, 3, 7 :: int] ! 2 < 3)"
    by blast
  from T two have b:
    "(2 < find_bound False [1, 3, 3, 7] 0 (length [1, 3, 3, 7 :: int]) 3)
        = ([1, 3, 3, 7 :: int] ! 2 \<le> 3)"
    by blast
  from T w two have c:
    "([1, 3, 3, 7] ! 2 = compute_hash 32 [1] 1 [3])
        = (snd (intersect_one 32 [1] 1 [1, 3, 3, 7] [3]) \<le> int 2
           \<and> int 2 < snd (intersect_one 32 [1] 1 [1, 3, 3, 7] [3])
                       + fst (intersect_one 32 [1] 1 [1, 3, 3, 7] [3]))"
    by blast
  show ?thesis
    by (intro conjI s w [THEN conjunct1] w [THEN conjunct2] l u h i a b c)
qed

section \<open>The hash is perfect and monotone\<close>

lemma stride_hash_Nil [simp]: "stride_hash [] col = 0"
  by (simp add: stride_hash_def)

lemma stride_hash_Cons [simp]:
  "stride_hash (s # ss) (c # cs) = c * prod_list ss + stride_hash ss cs"
  by (simp add: stride_hash_def)

lemma in_shape_Cons:
  "in_shape (s # ss) col \<longleftrightarrow> (\<exists>c cs. col = c # cs \<and> 0 \<le> c \<and> c < s \<and> in_shape ss cs)"
  by (cases col) (auto simp: in_shape_def)

lemma in_shape_Nil [simp]: "in_shape [] col \<longleftrightarrow> col = []"
  by (simp add: in_shape_def)

lemma in_shape_length: "in_shape shape col \<Longrightarrow> length col = length shape"
  by (simp add: in_shape_def list_all2_lengthD)

lemma stride_hash_bounds: "in_shape shape col \<Longrightarrow> 0 \<le> stride_hash shape col \<and> stride_hash shape col < prod_list shape"
proof (induction shape arbitrary: col)
  case Nil
  then show ?case by simp
next
  case (Cons s ss)
  then obtain c cs where col: "col = c # cs" and c: "0 \<le> c" "c < s" and cs: "in_shape ss cs"
    by (auto simp: in_shape_Cons)
  from Cons.IH [OF cs] have l: "0 \<le> stride_hash ss cs" "stride_hash ss cs < prod_list ss" by simp_all
  then have p: "0 < prod_list ss" by linarith
  have "c * prod_list ss + stride_hash ss cs < c * prod_list ss + prod_list ss" using l by simp
  also have "\<dots> = (c + 1) * prod_list ss" by (simp add: algebra_simps)
  also have "\<dots> \<le> s * prod_list ss"
    using c p by (intro mult_right_mono) simp_all
  finally have "c * prod_list ss + stride_hash ss cs < s * prod_list ss" .
  moreover have "0 \<le> c * prod_list ss + stride_hash ss cs" using c l p by simp
  ultimately show ?case by (simp add: col)
qed

lemma stride_hash_less_iff:
  "in_shape shape c1 \<Longrightarrow> in_shape shape c2 \<Longrightarrow> (stride_hash shape c1 < stride_hash shape c2 \<longleftrightarrow> c1 < c2)"
proof (induction shape arbitrary: c1 c2)
  case Nil
  then show ?case by simp
next
  case (Cons s ss)
  then obtain a as where c1: "c1 = a # as" and a: "0 \<le> a" "a < s" and as: "in_shape ss as"
    by (auto simp: in_shape_Cons)
  from Cons.prems obtain b bs where c2: "c2 = b # bs" and b: "0 \<le> b" "b < s" and bs: "in_shape ss bs"
    by (auto simp: in_shape_Cons)
  define P where "P = prod_list ss"
  from stride_hash_bounds [OF as] have la: "0 \<le> stride_hash ss as" "stride_hash ss as < P" by (simp_all add: P_def)
  from stride_hash_bounds [OF bs] have lb: "0 \<le> stride_hash ss bs" "stride_hash ss bs < P" by (simp_all add: P_def)
  have P: "0 < P" using la by linarith
  have "(a * P + stride_hash ss as < b * P + stride_hash ss bs) \<longleftrightarrow> (a < b \<or> a = b \<and> stride_hash ss as < stride_hash ss bs)"
  proof (cases a b rule: linorder_cases)
    case less
    then have "(a + 1) * P \<le> b * P" using P by (intro mult_right_mono) simp_all
    then have "a * P + P \<le> b * P" by (simp add: algebra_simps)
    with la lb less show ?thesis by simp
  next
    case equal
    then show ?thesis by simp
  next
    case greater
    then have "(b + 1) * P \<le> a * P" using P by (intro mult_right_mono) simp_all
    then have "b * P + P \<le> a * P" by (simp add: algebra_simps)
    with la lb greater show ?thesis by simp
  qed
  with Cons.IH [OF as bs] show ?case by (simp add: c1 c2 P_def)
qed

lemma stride_hash_eq_iff:
  "in_shape shape c1 \<Longrightarrow> in_shape shape c2 \<Longrightarrow> (stride_hash shape c1 = stride_hash shape c2 \<longleftrightarrow> c1 = c2)"
  using stride_hash_less_iff [of shape c1 c2] stride_hash_less_iff [of shape c2 c1]
  by (metis less_irrefl linorder_cases)


lemma sum_strides_stride_hash:
  "in_shape shape col \<Longrightarrow>
     (\<Sum>d<length shape. col ! d * contiguous_strides shape ! d) = stride_hash shape col"
proof (induction shape arbitrary: col)
  case Nil
  then show ?case by simp
next
  case (Cons s ss)
  then obtain c cs where col: "col = c # cs" and cs: "in_shape ss cs"
    by (auto simp: in_shape_Cons)
  show ?case
    using Cons.IH [OF cs] by (simp add: col sum.lessThan_Suc_shift del: sum.lessThan_Suc)
qed

lemma strides_bounds:
  "in_shape shape col \<Longrightarrow> d < length shape \<Longrightarrow>
     0 \<le> contiguous_strides shape ! d \<and> contiguous_strides shape ! d \<le> prod_list shape
     \<and> 0 \<le> col ! d \<and> col ! d < prod_list shape"
proof (induction shape arbitrary: col d)
  case Nil
  then show ?case by simp
next
  case (Cons s ss)
  then obtain c cs where col: "col = c # cs" and c: "0 \<le> c" "c < s" and cs: "in_shape ss cs"
    by (auto simp: in_shape_Cons)
  from stride_hash_bounds [OF cs] have p: "0 < prod_list ss" by linarith
  have s1: "1 \<le> s" using c by linarith
  have ps: "prod_list ss \<le> s * prod_list ss"
    using mult_right_mono [OF s1, of "prod_list ss"] p by simp
  have sp: "s \<le> s * prod_list ss"
    using mult_left_mono [of 1 "prod_list ss" s] p s1 by simp
  have cp: "c < s * prod_list ss" using c sp by linarith
  show ?case
  proof (cases d)
    case 0
    with c p ps cp show ?thesis by (simp add: col)
  next
    case (Suc d')
    with Cons.prems have "d' < length ss" by simp
    from Cons.IH [OF cs this] ps
    have "0 \<le> contiguous_strides ss ! d' \<and> contiguous_strides ss ! d' \<le> s * prod_list ss
          \<and> 0 \<le> cs ! d' \<and> cs ! d' < s * prod_list ss"
      by linarith
    then show ?thesis by (simp add: col Suc)
  qed
qed

lemma length_contiguous_strides [simp]: "length (contiguous_strides shape) = length shape"
  by (induction shape) simp_all

lemma compute_hash_fold:
  assumes hw: "0 < hw"
    and len: "n \<le> length coeffs"
    and coeffs: "\<And>d. d < n \<Longrightarrow> coeffs ! d = wrap hw (st ! d)"
    and col: "\<And>d. d < n \<Longrightarrow> 0 \<le> col ! d \<and> col ! d \<le> int_max hw"
    and st: "\<And>d. d < n \<Longrightarrow> 0 \<le> st ! d \<and> st ! d \<le> int_max hw"
    and total: "(\<Sum>d<n. col ! d * st ! d) \<le> int_max hw"
  shows "compute_hash hw coeffs n col = (\<Sum>d<n. col ! d * st ! d)"
proof -
  have step: "fold (\<lambda>dim hash. wrap hw (hash + wrap hw (wrap hw (col ! dim) * (coeffs ! dim))))
                [0..<m] 0 = (\<Sum>d<m. col ! d * st ! d)" if "m \<le> n" for m
    using that
  proof (induction m)
    case 0
    then show ?case by simp
  next
    case (Suc m)
    then have m: "m < n" by simp
    have nonneg: "0 \<le> col ! d * st ! d" if "d < n" for d
      using col [OF that] st [OF that] by simp
    have part: "(\<Sum>d<Suc m. col ! d * st ! d) \<le> (\<Sum>d<n. col ! d * st ! d)"
      using Suc.prems nonneg by (intro sum_mono2) auto
    have part0: "0 \<le> (\<Sum>d<m. col ! d * st ! d)"
      using m nonneg by (intro sum_nonneg) simp
    have tm: "col ! m * st ! m \<le> int_max hw"
      using part part0 total by simp
    have w1: "wrap hw (col ! m) = col ! m"
      using col [OF m] by (intro wrap_nonneg_id [OF hw]) simp_all
    have w2: "coeffs ! m = st ! m"
      using coeffs [OF m] st [OF m] by (simp add: wrap_nonneg_id [OF hw])
    have w3: "wrap hw (col ! m * st ! m) = col ! m * st ! m"
      using nonneg [OF m] tm by (intro wrap_nonneg_id [OF hw]) simp_all
    have w4: "wrap hw ((\<Sum>d<m. col ! d * st ! d) + col ! m * st ! m)
              = (\<Sum>d<m. col ! d * st ! d) + col ! m * st ! m"
      using part part0 total nonneg [OF m] by (intro wrap_nonneg_id [OF hw]) simp_all
    from Suc.IH m show ?case by (simp add: w1 w2 w3 w4)
  qed
  from step [of n] show ?thesis by (simp add: compute_hash_def)
qed

lemma compute_hash_stride_hash:
  assumes hw: "0 < hw"
    and sd: "sd \<le> length bshape"
    and fits: "prod_list (take sd bshape) \<le> int_max hw"
    and col: "in_shape (take sd bshape) col"
  shows "compute_hash hw (hash_coeffs hw bshape sd) sd col = stride_hash (take sd bshape) col"
proof -
  define shape where "shape = take sd bshape"
  have len: "length shape = sd" using sd by (simp add: shape_def)
  have col': "in_shape shape col" using col by (simp add: shape_def)
  have fits': "prod_list shape \<le> int_max hw" using fits by (simp add: shape_def)
  have total: "(\<Sum>d<sd. col ! d * contiguous_strides shape ! d) = stride_hash shape col"
    using sum_strides_stride_hash [OF col'] by (simp add: len)
  have bounds: "0 \<le> contiguous_strides shape ! d \<and> contiguous_strides shape ! d \<le> int_max hw
     \<and> 0 \<le> col ! d \<and> col ! d \<le> int_max hw" if "d < sd" for d
  proof -
    from that len have "d < length shape" by simp
    from strides_bounds [OF col' this] fits' show ?thesis by linarith
  qed
  have "compute_hash hw (hash_coeffs hw bshape sd) sd col
        = (\<Sum>d<sd. col ! d * contiguous_strides shape ! d)"
  proof (rule compute_hash_fold [OF hw])
    show "sd \<le> length (hash_coeffs hw bshape sd)"
      using len by (simp add: hash_coeffs_def shape_def)
    show "hash_coeffs hw bshape sd ! d = wrap hw (contiguous_strides shape ! d)" if "d < sd" for d
      using that len by (simp add: hash_coeffs_def shape_def)
    show "0 \<le> col ! d \<and> col ! d \<le> int_max hw" if "d < sd" for d
      using bounds [OF that] by simp
    show "0 \<le> contiguous_strides shape ! d \<and> contiguous_strides shape ! d \<le> int_max hw"
      if "d < sd" for d
      using bounds [OF that] by simp
    show "(\<Sum>d<sd. col ! d * contiguous_strides shape ! d) \<le> int_max hw"
      using total stride_hash_bounds [OF col'] fits' by linarith
  qed
  with total show ?thesis by (simp add: shape_def)
qed


lemma indices_hash_stride:
  assumes hw: "0 < hw"
    and sd: "sd \<le> length bshape"
    and fits: "prod_list (take sd bshape) \<le> int_max hw"
    and cols: "list_all (in_shape (take sd bshape)) (indices t)"
    and len: "length (indices t) = nnz t"
  shows "indices_hash hw (hash_coeffs hw bshape sd) sd t
         = map (stride_hash (take sd bshape)) (indices t)"
proof -
  have "compute_hash hw (hash_coeffs hw bshape sd) sd (indices t ! k)
        = stride_hash (take sd bshape) (indices t ! k)" if "k < nnz t" for k
  proof -
    from that len cols have "in_shape (take sd bshape) (indices t ! k)"
      by (simp add: list_all_length)
    from compute_hash_stride_hash [OF hw sd fits this] show ?thesis .
  qed
  then have "indices_hash hw (hash_coeffs hw bshape sd) sd t
        = map (\<lambda>k. stride_hash (take sd bshape) (indices t ! k)) [0..<nnz t]"
    by (simp add: indices_hash_def)
  also have "\<dots> = map (stride_hash (take sd bshape)) (map (\<lambda>k. indices t ! k) [0..<length (indices t)])"
    by (simp add: len)
  also have "\<dots> = map (stride_hash (take sd bshape)) (indices t)"
    by (simp only: map_nth)
  finally show ?thesis .
qed

lemma stride_hash_strict_sorted:
  assumes "sorted_wrt (<) cols" and "list_all (in_shape shape) cols"
  shows "sorted_wrt (<) (map (stride_hash shape) cols)"
proof -
  have "sorted_wrt (\<lambda>a b. stride_hash shape a < stride_hash shape b) cols"
  proof (rule sorted_wrt_mono_rel [OF _ assms(1)])
    fix a b assume "a \<in> set cols" "b \<in> set cols" "a < b"
    with assms(2) show "stride_hash shape a < stride_hash shape b"
      by (simp add: list_all_iff stride_hash_less_iff)
  qed
  then show ?thesis by (simp add: sorted_wrt_map)
qed

lemma sort_with_indices_sorted:
  assumes "sorted h"
  shows "sort_with_indices h = (h, [0..<length h])"
proof -
  have "sorted (map (\<lambda>i. h ! i) [0..<length h])"
    using assms by (simp only: map_nth)
  then have "sort_key (\<lambda>i. h ! i) [0..<length h] = [0..<length h]"
    by (rule sort_key_id_if_sorted)
  then show ?thesis by (simp add: sort_with_indices_def Let_def map_nth)
qed


text \<open>
  Claim C4. For every shape the map \<open>coord \<rightarrow> \<Sum> coord[d] * stride[d]\<close> over the
  row-major strides is injective on the coordinate space of the shape, and the order of
  the hash values is the lexicographic order of the coordinates. Where the product of
  the sparse sizes is representable in \<open>hash_t\<close>, the hash that the kernel computes in
  \<open>hash_t\<close> is this map; hence the hashes of a coalesced tensor are already sorted, and
  the pair that the sort stage returns without sorting (the hashes and the identity
  permutation) is what sorting them returns.
\<close>

theorem hash_injective_order_preserving:
  "(\<forall>c1 c2. in_shape (take sd bshape) c1 \<and> in_shape (take sd bshape) c2 \<longrightarrow>
       (stride_hash (take sd bshape) c1 = stride_hash (take sd bshape) c2 \<longleftrightarrow> c1 = c2)
     \<and> (stride_hash (take sd bshape) c1 < stride_hash (take sd bshape) c2 \<longleftrightarrow> c1 < c2))
   \<and> (0 < hw \<and> sd \<le> length bshape \<and> prod_list (take sd bshape) \<le> int_max hw \<longrightarrow>
        (\<forall>c. in_shape (take sd bshape) c \<longrightarrow>
           compute_hash hw (hash_coeffs hw bshape sd) sd c = stride_hash (take sd bshape) c)
      \<and> (\<forall>t :: ('v, 'd) tensor.
           is_coalesced t \<and> sorted_wrt (<) (indices t)
           \<and> list_all (in_shape (take sd bshape)) (indices t) \<and> length (indices t) = nnz t \<longrightarrow>
             sorted (indices_hash hw (hash_coeffs hw bshape sd) sd t)
           \<and> sort_stage t (indices_hash hw (hash_coeffs hw bshape sd) sd t)
               = (indices_hash hw (hash_coeffs hw bshape sd) sd t, [0..<nnz t])
           \<and> sort_with_indices (indices_hash hw (hash_coeffs hw bshape sd) sd t)
               = (indices_hash hw (hash_coeffs hw bshape sd) sd t, [0..<nnz t])))"
proof (intro conjI allI impI)
  fix c1 c2
  assume "in_shape (take sd bshape) c1 \<and> in_shape (take sd bshape) c2"
  then have c: "in_shape (take sd bshape) c1" "in_shape (take sd bshape) c2" by simp_all
  show "(stride_hash (take sd bshape) c1 = stride_hash (take sd bshape) c2) = (c1 = c2)"
    by (rule stride_hash_eq_iff [OF c])
  show "(stride_hash (take sd bshape) c1 < stride_hash (take sd bshape) c2) = (c1 < c2)"
    by (rule stride_hash_less_iff [OF c])
next
  fix c
  assume "0 < hw \<and> sd \<le> length bshape \<and> prod_list (take sd bshape) \<le> int_max hw"
    and "in_shape (take sd bshape) c"
  then show "compute_hash hw (hash_coeffs hw bshape sd) sd c = stride_hash (take sd bshape) c"
    by (simp add: compute_hash_stride_hash)
next
  fix t :: "('v, 'd) tensor"
  assume w: "0 < hw \<and> sd \<le> length bshape \<and> prod_list (take sd bshape) \<le> int_max hw"
    and t: "is_coalesced t \<and> sorted_wrt (<) (indices t)
           \<and> list_all (in_shape (take sd bshape)) (indices t) \<and> length (indices t) = nnz t"
  define h where "h = indices_hash hw (hash_coeffs hw bshape sd) sd t"
  have h: "h = map (stride_hash (take sd bshape)) (indices t)"
    unfolding h_def using w t by (intro indices_hash_stride) simp_all
  have "sorted_wrt (<) h"
    unfolding h using t by (intro stride_hash_strict_sorted) simp_all
  then have sorted: "sorted h"
    by (rule sorted_wrt_mono_rel [rotated]) simp
  have len: "length h = nnz t" using t by (simp add: h)
  show "sorted (indices_hash hw (hash_coeffs hw bshape sd) sd t)"
    using sorted by (simp add: h_def)
  show "sort_stage t (indices_hash hw (hash_coeffs hw bshape sd) sd t)
               = (indices_hash hw (hash_coeffs hw bshape sd) sd t, [0..<nnz t])"
    using t by (simp add: sort_stage_def)
  show "sort_with_indices (indices_hash hw (hash_coeffs hw bshape sd) sd t)
               = (indices_hash hw (hash_coeffs hw bshape sd) sd t, [0..<nnz t])"
    using sort_with_indices_sorted [OF sorted] by (simp add: len h_def [symmetric])
qed

theorem hash_injective_order_preserving_witness:
  "in_shape (take 2 [2, 3, 5]) [0, 2] \<and> in_shape (take 2 [2, 3, 5]) [1, 0]
   \<and> stride_hash (take 2 [2, 3, 5]) [0, 2] = 2 \<and> stride_hash (take 2 [2, 3, 5]) [1, 0] = 3
   \<and> (stride_hash (take 2 [2, 3, 5]) [0, 2] < stride_hash (take 2 [2, 3, 5]) [1, 0])
        = ([0, 2] < [1, 0 :: int])
   \<and> (stride_hash (take 2 [2, 3, 5]) [0, 2] = stride_hash (take 2 [2, 3, 5]) [1, 0])
        = ([0, 2] = [1, 0 :: int])
   \<and> (0::nat) < 32 \<and> (2::nat) \<le> length [2, 3, 5 :: int]
   \<and> prod_list (take 2 [2, 3, 5]) \<le> int_max 32
   \<and> compute_hash 32 (hash_coeffs 32 [2, 3, 5] 2) 2 [1, 0] = stride_hash (take 2 [2, 3, 5]) [1, 0]
   \<and> sort_stage
        \<lparr>is_sparse = True, sizes = [2, 3, 5], sparse_dim = 2, dense_dim = 1,
         indices = [[0, 2], [1, 0]], vals = [7, 8 :: int], vals_dim = 2,
         is_coalesced = True, scalar_type = ()\<rparr>
        (indices_hash 32 (hash_coeffs 32 [2, 3, 5] 2) 2
          \<lparr>is_sparse = True, sizes = [2, 3, 5], sparse_dim = 2, dense_dim = 1,
           indices = [[0, 2], [1, 0]], vals = [7, 8 :: int], vals_dim = 2,
           is_coalesced = True, scalar_type = ()\<rparr>)
       = sort_with_indices
        (indices_hash 32 (hash_coeffs 32 [2, 3, 5] 2) 2
          \<lparr>is_sparse = True, sizes = [2, 3, 5], sparse_dim = 2, dense_dim = 1,
           indices = [[0, 2], [1, 0]], vals = [7, 8 :: int], vals_dim = 2,
           is_coalesced = True, scalar_type = ()\<rparr>)"
proof -
  define t :: "(int, unit) tensor" where
    "t = \<lparr>is_sparse = True, sizes = [2, 3, 5], sparse_dim = 2, dense_dim = 1,
         indices = [[0, 2], [1, 0]], vals = [7, 8 :: int], vals_dim = 2,
         is_coalesced = True, scalar_type = ()\<rparr>"
  have a: "in_shape (take 2 [2, 3, 5]) [0, 2]" by (simp add: in_shape_def)
  have b: "in_shape (take 2 [2, 3, 5]) [1, 0]" by (simp add: in_shape_def)
  have ha: "stride_hash (take 2 [2, 3, 5]) [0, 2] = 2" by (simp add: stride_hash_def)
  have hb: "stride_hash (take 2 [2, 3, 5]) [1, 0] = 3" by (simp add: stride_hash_def)
  have w: "(0::nat) < 32 \<and> (2::nat) \<le> length [2, 3, 5 :: int]
           \<and> prod_list (take 2 [2, 3, 5]) \<le> int_max 32"
    by (simp add: int_max_def)
  have tc: "is_coalesced t \<and> sorted_wrt (<) (indices t)
           \<and> list_all (in_shape (take 2 [2, 3, 5])) (indices t) \<and> length (indices t) = nnz t"
    by (simp add: t_def in_shape_def nnz_def)
  note T = hash_injective_order_preserving [of 2 "[2, 3, 5]" 32]
  from T a b have lt:
    "(stride_hash (take 2 [2, 3, 5]) [0, 2] < stride_hash (take 2 [2, 3, 5]) [1, 0])
        = ([0, 2] < [1, 0 :: int])"
    by blast
  from T a b have eq:
    "(stride_hash (take 2 [2, 3, 5]) [0, 2] = stride_hash (take 2 [2, 3, 5]) [1, 0])
        = ([0, 2] = [1, 0 :: int])"
    by blast
  from T w b have ch:
    "compute_hash 32 (hash_coeffs 32 [2, 3, 5] 2) 2 [1, 0] = stride_hash (take 2 [2, 3, 5]) [1, 0]"
    by blast
  from T w tc have st:
    "sort_stage t (indices_hash 32 (hash_coeffs 32 [2, 3, 5] 2) 2 t)
       = sort_with_indices (indices_hash 32 (hash_coeffs 32 [2, 3, 5] 2) 2 t)"
    by (metis (no_types))
  show ?thesis
    using a b ha hb lt eq w ch st unfolding t_def by (intro conjI) simp_all
qed

section \<open>Offsets and the gather stage\<close>

lemma cumsum_from_nth:
  assumes w: "0 < w" and nonneg: "\<forall>c \<in> set cs. 0 \<le> c" and acc: "0 \<le> acc"
    and fits: "acc + sum_list cs \<le> int_max w"
  shows "length (cumsum_from w acc cs) = length cs
       \<and> (\<forall>k < length cs. cumsum_from w acc cs ! k = acc + sum_list (take (Suc k) cs))"
  using nonneg acc fits
proof (induction cs arbitrary: acc)
  case Nil
  then show ?case by simp
next
  case (Cons c cs)
  have c: "0 \<le> c" and rest: "\<forall>c \<in> set cs. 0 \<le> c" using Cons.prems(1) by simp_all
  have s: "0 \<le> sum_list cs" using rest by (simp add: sum_list_nonneg)
  have wc: "wrap w c = c"
    using c s Cons.prems(2,3) by (intro wrap_nonneg_id [OF w]) simp_all
  have ws: "wrap w (acc + c) = acc + c"
    using c s Cons.prems(2,3) by (intro wrap_nonneg_id [OF w]) simp_all
  have "0 \<le> acc + c" using c Cons.prems(2) by simp
  moreover have "acc + c + sum_list cs \<le> int_max w" using Cons.prems(3) by simp
  ultimately have IH: "length (cumsum_from w (acc + c) cs) = length cs
       \<and> (\<forall>k < length cs. cumsum_from w (acc + c) cs ! k = acc + c + sum_list (take (Suc k) cs))"
    using Cons.IH [OF rest] by blast
  show ?case
  proof (intro conjI allI impI)
    show "length (cumsum_from w acc (c # cs)) = length (c # cs)"
      using IH by (simp add: wc ws Let_def)
    fix k assume "k < length (c # cs)"
    then show "cumsum_from w acc (c # cs) ! k = acc + sum_list (take (Suc k) (c # cs))"
      using IH by (cases k) (simp_all add: wc ws Let_def)
  qed
qed

lemma cumsum_nth:
  assumes "0 < w" and "\<forall>c \<in> set cs. 0 \<le> c" and "sum_list cs \<le> int_max w"
  shows "length (cumsum w cs) = length cs"
    and "k < length cs \<Longrightarrow> cumsum w cs ! k = sum_list (take (Suc k) cs)"
  using cumsum_from_nth [OF assms(1,2), of 0] assms(3) by (simp_all add: cumsum_def)

lemma intersection_nnz_cumsum:
  assumes "0 < w" and "\<forall>c \<in> set cs. 0 \<le> c" and "sum_list cs \<le> int_max w"
  shows "intersection_nnz (cumsum w cs) = sum_list cs"
proof (cases "cs = []")
  case True
  then show ?thesis by (simp add: intersection_nnz_def cumsum_def)
next
  case False
  then have n: "length cs - 1 < length cs" by simp
  have len: "length (cumsum w cs) = length cs" by (rule cumsum_nth(1) [OF assms])
  have ne: "cumsum w cs \<noteq> []" using False len by auto
  have "last (cumsum w cs) = cumsum w cs ! (length cs - 1)"
    using last_conv_nth [OF ne] by (simp add: len)
  also have "\<dots> = sum_list (take (Suc (length cs - 1)) cs)"
    by (rule cumsum_nth(2) [OF assms n])
  also have "\<dots> = sum_list cs" using False by simp
  finally show ?thesis using False len by (simp add: intersection_nnz_def)
qed

lemma store_prefix:
  "store (P @ replicate (Suc r) None) (int (length P)) v = Inr ((P @ [Some v]) @ replicate r None)"
  by (simp add: store_def list_update_append replicate_app_Cons_same)

lemma copy_matches_prefix:
  assumes "selected_source bufs = P1 @ replicate (n + r) None"
    and "selected_probably_coalesced bufs = P2 @ replicate (n + r) None"
    and "selected_source_sparse_indices bufs = P3 @ replicate (n + r) None"
    and "length P1 = L" and "length P2 = L" and "length P3 = L"
    and "out = int L" and "0 \<le> q" and "nat q + n \<le> length argsort"
  shows "copy_matches hw sdim argsort col n idx out q bufs =
           Inr \<lparr>selected_source =
                  P1 @ map Some (replicate n (wrap hw idx)) @ replicate r None,
                selected_probably_coalesced =
                  P2 @ map Some (map (\<lambda>i. wrap hw (int (argsort ! (nat q + i)))) [0..<n])
                     @ replicate r None,
                selected_source_sparse_indices =
                  P3 @ map Some (replicate n (map (\<lambda>d. col ! d) [0..<sdim]))
                     @ replicate r None\<rparr>"
  using assms
proof (induction n arbitrary: P1 P2 P3 L out q bufs)
  case 0
  then show ?case by simp
next
  case (Suc n)
  let ?v1 = "wrap hw idx"
  let ?v2 = "wrap hw (int (argsort ! nat q))"
  let ?v3 = "map (\<lambda>d. col ! d) [0..<sdim]"
  let ?bufs = "\<lparr>selected_source = (P1 @ [Some ?v1]) @ replicate (n + r) None,
                selected_probably_coalesced = (P2 @ [Some ?v2]) @ replicate (n + r) None,
                selected_source_sparse_indices = (P3 @ [Some ?v3]) @ replicate (n + r) None\<rparr>"
  have q: "0 \<le> q \<and> q < int (length argsort)" using Suc.prems(8,9) by linarith
  have s1: "store (selected_source bufs) out ?v1
            = Inr ((P1 @ [Some ?v1]) @ replicate (n + r) None)"
    using Suc.prems(1,4,7) store_prefix [of P1 "n + r" ?v1] by simp
  have s2: "store (selected_probably_coalesced bufs) out ?v2
            = Inr ((P2 @ [Some ?v2]) @ replicate (n + r) None)"
    using Suc.prems(2,5,7) store_prefix [of P2 "n + r" ?v2] by simp
  have s3: "store (selected_source_sparse_indices bufs) out ?v3
            = Inr ((P3 @ [Some ?v3]) @ replicate (n + r) None)"
    using Suc.prems(3,6,7) store_prefix [of P3 "n + r" ?v3] by simp
  have step: "copy_matches hw sdim argsort col (Suc n) idx out q bufs
              = copy_matches hw sdim argsort col n idx (out + 1) (q + 1) ?bufs"
    using q by (simp add: s1 s2 s3)
  have rec: "copy_matches hw sdim argsort col n idx (out + 1) (q + 1) ?bufs =
           Inr \<lparr>selected_source =
                  (P1 @ [Some ?v1]) @ map Some (replicate n (wrap hw idx)) @ replicate r None,
                selected_probably_coalesced =
                  (P2 @ [Some ?v2])
                    @ map Some (map (\<lambda>i. wrap hw (int (argsort ! (nat (q + 1) + i)))) [0..<n])
                    @ replicate r None,
                selected_source_sparse_indices =
                  (P3 @ [Some ?v3]) @ map Some (replicate n (map (\<lambda>d. col ! d) [0..<sdim]))
                    @ replicate r None\<rparr>"
  proof (rule Suc.IH [where L = "Suc L"])
    show "out + 1 = int (Suc L)" using Suc.prems(7) by simp
    show "0 \<le> q + 1" using Suc.prems(8) by simp
    show "nat (q + 1) + n \<le> length argsort" using Suc.prems(8,9) by (simp add: nat_add_distrib)
  qed (use Suc.prems in simp_all)
  have m: "map (\<lambda>i. wrap hw (int (argsort ! (nat q + i)))) [0..<Suc n]
           = ?v2 # map (\<lambda>i. wrap hw (int (argsort ! (nat (q + 1) + i)))) [0..<n]"
    using Suc.prems(8)
    by (simp add: upt_conv_Cons map_Suc_upt [symmetric] nat_add_distrib del: upt_Suc)
  show ?case
    unfolding step rec m by simp
qed

lemma copy_matches_filled:
  assumes "selected_source bufs = filled A1 (n + r)"
    and "selected_probably_coalesced bufs = filled A2 (n + r)"
    and "selected_source_sparse_indices bufs = filled A3 (n + r)"
    and "length A1 = L" and "length A2 = L" and "length A3 = L"
    and "out = int L" and "0 \<le> q" and "nat q + n \<le> length argsort"
  shows "copy_matches hw sdim argsort col n idx out q bufs =
           Inr \<lparr>selected_source = filled (A1 @ replicate n (wrap hw idx)) r,
                selected_probably_coalesced =
                  filled (A2 @ map (\<lambda>i. wrap hw (int (argsort ! (nat q + i)))) [0..<n]) r,
                selected_source_sparse_indices =
                  filled (A3 @ replicate n (map (\<lambda>d. col ! d) [0..<sdim])) r\<rparr>"
proof -
  have "copy_matches hw sdim argsort col n idx out q bufs =
           Inr \<lparr>selected_source =
                  map Some A1 @ map Some (replicate n (wrap hw idx)) @ replicate r None,
                selected_probably_coalesced =
                  map Some A2 @ map Some (map (\<lambda>i. wrap hw (int (argsort ! (nat q + i)))) [0..<n])
                     @ replicate r None,
                selected_source_sparse_indices =
                  map Some A3 @ map Some (replicate n (map (\<lambda>d. col ! d) [0..<sdim]))
                     @ replicate r None\<rparr>"
    using assms by (intro copy_matches_prefix [where L = L]) (simp_all add: filled_def)
  then show ?thesis by (simp add: filled_def)
qed

lemma launch_gather_append:
  "launch_gather f xs b = Inr b' \<Longrightarrow> launch_gather f (xs @ ys) b = launch_gather f ys b'"
  by (induction xs arbitrary: b) (auto split: sum.splits)

lemma sum_list_take_le:
  assumes "\<forall>c \<in> set cs. (0::int) \<le> c"
  shows "0 \<le> sum_list (take m cs) \<and> sum_list (take m cs) \<le> sum_list cs"
proof -
  have "sum_list cs = sum_list (take m cs) + sum_list (drop m cs)"
    by (metis append_take_drop_id sum_list_append)
  moreover have "0 \<le> sum_list (drop m cs)"
    using assms by (intro sum_list_nonneg) (auto dest: in_set_dropD)
  moreover have "0 \<le> sum_list (take m cs)"
    using assms by (intro sum_list_nonneg) (auto dest: in_set_takeD)
  ultimately show ?thesis by simp
qed

lemma sum_list_take_Suc:
  "m < length cs \<Longrightarrow> sum_list (take (Suc m) cs) = sum_list (take m cs) + (cs ! m :: int)"
  by (simp add: take_Suc_conv_app_nth)

lemma length_concat_counts:
  assumes "\<forall>c \<in> set cs. (0::int) \<le> c" and "m \<le> length cs"
    and "\<And>k. k < m \<Longrightarrow> length (g k) = nat (cs ! k)"
  shows "length (concat (map g [0..<m])) = nat (sum_list (take m cs))"
  using assms(2,3)
proof (induction m)
  case 0
  then show ?case by simp
next
  case (Suc m)
  then have m: "m < length cs" by simp
  have c: "0 \<le> cs ! m" using assms(1) m by simp
  have s: "0 \<le> sum_list (take m cs)" using sum_list_take_le [OF assms(1)] by simp
  from Suc have "length (concat (map g [0..<m])) = nat (sum_list (take m cs))" by simp
  then show ?case
    using Suc.prems(2) [of m] c s by (simp add: sum_list_take_Suc [OF m] nat_add_distrib)
qed

lemma launch_gather_filled:
  assumes ow: "0 < ow"
    and len: "length cs = ns" "length fs = ns"
    and nonneg: "\<forall>c \<in> set cs. 0 \<le> c"
    and total: "sum_list cs \<le> int_max ow"
    and range: "\<And>k. k < ns \<Longrightarrow> 0 \<le> fs ! k \<and> nat (fs ! k) + nat (cs ! k) \<le> length argsort"
    and m: "m \<le> ns"
  shows "launch_gather
           (\<lambda>idx. gather_task hw ow sdim argsort src_cols idx (cs ! idx) (fs ! idx)
                    (cumsum ow cs ! idx))
           [0..<m]
           \<lparr>selected_source = replicate (nat (sum_list cs)) None,
            selected_probably_coalesced = replicate (nat (sum_list cs)) None,
            selected_source_sparse_indices = replicate (nat (sum_list cs)) None\<rparr>
         = Inr \<lparr>selected_source =
                  filled (concat (map (\<lambda>k. replicate (nat (cs ! k)) (wrap hw (int k))) [0..<m]))
                         (nat (sum_list cs) - nat (sum_list (take m cs))),
                selected_probably_coalesced =
                  filled (concat (map (\<lambda>k. map (\<lambda>i. wrap hw (int (argsort ! (nat (fs ! k) + i))))
                                              [0..<nat (cs ! k)]) [0..<m]))
                         (nat (sum_list cs) - nat (sum_list (take m cs))),
                selected_source_sparse_indices =
                  filled (concat (map (\<lambda>k. replicate (nat (cs ! k))
                                              (map (\<lambda>d. src_cols ! k ! d) [0..<sdim])) [0..<m]))
                         (nat (sum_list cs) - nat (sum_list (take m cs)))\<rparr>"
  using m
proof (induction m)
  case 0
  then show ?case by (simp add: filled_def)
next
  case (Suc m)
  then have m: "m < ns" and m': "m < length cs" using len by simp_all
  let ?f = "\<lambda>idx. gather_task hw ow sdim argsort src_cols idx (cs ! idx) (fs ! idx)
                    (cumsum ow cs ! idx)"
  let ?A1 = "concat (map (\<lambda>k. replicate (nat (cs ! k)) (wrap hw (int k))) [0..<m])"
  let ?A2 = "concat (map (\<lambda>k. map (\<lambda>i. wrap hw (int (argsort ! (nat (fs ! k) + i))))
                                              [0..<nat (cs ! k)]) [0..<m])"
  let ?A3 = "concat (map (\<lambda>k. replicate (nat (cs ! k))
                                              (map (\<lambda>d. src_cols ! k ! d) [0..<sdim])) [0..<m])"
  let ?T = "nat (sum_list cs)"
  let ?L = "nat (sum_list (take m cs))"
  let ?n = "nat (cs ! m)"
  let ?r = "?T - nat (sum_list (take (Suc m) cs))"
  let ?b = "\<lparr>selected_source = filled ?A1 (?T - ?L),
             selected_probably_coalesced = filled ?A2 (?T - ?L),
             selected_source_sparse_indices = filled ?A3 (?T - ?L)\<rparr>"
  have c: "0 \<le> cs ! m" using nonneg m' by simp
  have sm: "0 \<le> sum_list (take m cs)" "sum_list (take m cs) \<le> sum_list cs"
    using sum_list_take_le [OF nonneg, of m] by simp_all
  have sS: "sum_list (take (Suc m) cs) \<le> sum_list cs"
    using sum_list_take_le [OF nonneg, of "Suc m"] by simp
  have sSeq: "sum_list (take (Suc m) cs) = sum_list (take m cs) + cs ! m"
    by (rule sum_list_take_Suc [OF m'])
  have split: "?T - ?L = ?n + ?r"
    using c sm sS unfolding sSeq by linarith
  have cle: "cs ! m \<le> int_max ow" using sm sS total c by (simp add: sSeq)
  have wc: "wrap ow (cs ! m) = cs ! m" using c cle by (intro wrap_nonneg_id [OF ow])
  have sh: "cumsum ow cs ! m = sum_list (take (Suc m) cs)"
    by (rule cumsum_nth(2) [OF ow nonneg total m'])
  have off: "wrap ow (cumsum ow cs ! m - wrap ow (cs ! m)) = int ?L"
  proof -
    have "cumsum ow cs ! m - wrap ow (cs ! m) = sum_list (take m cs)"
      by (simp add: wc sh sSeq)
    moreover have "wrap ow (sum_list (take m cs)) = sum_list (take m cs)"
      using sm total by (intro wrap_nonneg_id [OF ow]) simp_all
    ultimately show ?thesis using sm by simp
  qed
  have lens: "length ?A1 = ?L" "length ?A2 = ?L" "length ?A3 = ?L"
    using m' by (intro length_concat_counts [OF nonneg]; simp)+
  have gt: "?f m ?b =
           Inr \<lparr>selected_source = filled (?A1 @ replicate ?n (wrap hw (int m))) ?r,
                selected_probably_coalesced =
                  filled (?A2 @ map (\<lambda>i. wrap hw (int (argsort ! (nat (fs ! m) + i)))) [0..<?n]) ?r,
                selected_source_sparse_indices =
                  filled (?A3 @ replicate ?n (map (\<lambda>d. src_cols ! m ! d) [0..<sdim])) ?r\<rparr>"
    unfolding gather_task_def Let_def off
    using range [OF m] lens
    by (intro copy_matches_filled [where L = ?L]) (simp_all add: split)
  from Suc have prev: "launch_gather ?f [0..<m]
           \<lparr>selected_source = replicate ?T None,
            selected_probably_coalesced = replicate ?T None,
            selected_source_sparse_indices = replicate ?T None\<rparr> = Inr ?b"
    by simp
  have "launch_gather ?f [0..<Suc m]
           \<lparr>selected_source = replicate ?T None,
            selected_probably_coalesced = replicate ?T None,
            selected_source_sparse_indices = replicate ?T None\<rparr> = launch_gather ?f [m] ?b"
    using launch_gather_append [OF prev, of "[m]"] by simp
  also have "\<dots> = ?f m ?b" by (simp split: sum.splits)
  finally show ?case by (simp add: gt)
qed


lemma initialized_filled: "initialized (filled A 0) = Inr A"
  by (simp add: initialized_def filled_def list_all_iff comp_def)

lemma select_matches_eq:
  assumes ow: "0 < ow"
    and len: "length cs = nnz source" "length fs = nnz source"
    and nonneg: "\<forall>c \<in> set cs. 0 \<le> c"
    and total: "sum_list cs \<le> int_max ow"
    and range: "\<And>k. k < nnz source \<Longrightarrow>
                  0 \<le> fs ! k \<and> nat (fs ! k) + nat (cs ! k) \<le> length argsort"
  shows "select_matches hw ow sdim source argsort cs fs =
           Inr (concat (map (\<lambda>k. replicate (nat (cs ! k)) (wrap hw (int k))) [0..<nnz source]),
                concat (map (\<lambda>k. replicate (nat (cs ! k))
                                 (map (\<lambda>d. indices source ! k ! d) [0..<sdim])) [0..<nnz source]),
                concat (map (\<lambda>k. map (\<lambda>i. wrap hw (int (argsort ! (nat (fs ! k) + i))))
                                      [0..<nat (cs ! k)]) [0..<nnz source]))"
proof -
  have n: "intersection_nnz (cumsum ow cs) = sum_list cs"
    by (rule intersection_nnz_cumsum [OF ow nonneg total])
  have pos: "\<not> sum_list cs < 0" using nonneg by (simp add: sum_list_nonneg not_less)
  have full: "take (nnz source) cs = cs" using len by simp
  note L = launch_gather_filled [OF ow len nonneg total range order_refl,
      of hw sdim "indices source", unfolded full, simplified]
  show ?thesis
    unfolding select_matches_def Let_def n using pos
    by (simp add: L initialized_filled)
qed








section \<open>Width selection, errors and non-commutative operators\<close>

lemma max_hash_val_prod:
  assumes "sd \<le> length bshape"
    and "\<forall>n \<le> sd. \<bar>prod_list (take n bshape)\<bar> \<le> int_max 64"
  shows "max_hash_val bshape sd = prod_list (take sd bshape)"
proof -
  have "fold (\<lambda>d m. wrap 64 (m * bshape ! d)) [0..<n] 1 = prod_list (take n bshape)"
    if "n \<le> sd" for n
    using that
  proof (induction n)
    case 0
    then show ?case by simp
  next
    case (Suc n)
    then have n: "n < length bshape" using assms(1) by simp
    have p: "prod_list (take (Suc n) bshape) = prod_list (take n bshape) * bshape ! n"
      by (simp add: take_Suc_conv_app_nth [OF n])
    have "\<bar>prod_list (take (Suc n) bshape)\<bar> \<le> int_max 64" using assms(2) Suc.prems by blast
    then have "wrap 64 (prod_list (take (Suc n) bshape)) = prod_list (take (Suc n) bshape)"
      by (intro wrap_id) (simp_all add: int_max_def)
    with Suc show ?case by (simp add: p)
  qed
  from this [of sd] show ?thesis by (simp add: max_hash_val_def)
qed

text \<open>
  Claim C9. Where the products that the entry point forms in \<open>int64_t\<close> are
  representable in 64 bits, 32-bit hashes are used iff the product of the first
  \<open>sparse_dim\<close> sizes of the broadcasted shape is at most the largest 32-bit value,
  32-bit offsets are used iff \<open>x.nnz * y.nnz\<close> is at most that value, the
  implementation is called at these two widths, and each of the four combinations of
  widths is selected for some input.
\<close>

theorem width_selection:
  assumes "sd \<le> length bshape"
    and "\<forall>n \<le> sd. \<bar>prod_list (take n bshape)\<bar> \<le> int_max 64"
    and "int (nnz x) * int (nnz y) \<le> int_max 64"
  shows "(is_max_hash_32bits bshape sd \<longleftrightarrow> prod_list (take sd bshape) \<le> int_max 32)
     \<and> (is_max_offset_32bits x y \<longleftrightarrow> int (nnz x) * int (nnz y) \<le> int_max 32)
     \<and> dispatch_widths (is_max_hash_32bits bshape sd) (is_max_offset_32bits x y)
         = (if prod_list (take sd bshape) \<le> int_max 32 then 32 else 64,
            if int (nnz x) * int (nnz y) \<le> int_max 32 then 32 else 64)
     \<and> (sd = sparse_dim x \<and> precondition x y \<and> infer_size (sizes x) (sizes y) = Inr bshape \<longrightarrow>
          kernel_out ops res x y is_commutative
          = kernel_impl ops (if prod_list (take sd bshape) \<le> int_max 32 then 32 else 64)
              (if int (nnz x) * int (nnz y) \<le> int_max 32 then 32 else 64)
              res x y bshape is_commutative)
     \<and> dispatch_widths (is_max_hash_32bits [3] 1)
           (is_max_offset_32bits (x\<lparr>vals := replicate 2 v\<rparr>) (y\<lparr>vals := replicate 3 v\<rparr>))
         = (32, 32)
     \<and> dispatch_widths (is_max_hash_32bits [3] 1)
           (is_max_offset_32bits (x\<lparr>vals := replicate 65536 v\<rparr>) (y\<lparr>vals := replicate 65536 v\<rparr>))
         = (32, 64)
     \<and> dispatch_widths (is_max_hash_32bits [65536, 65536] 2)
           (is_max_offset_32bits (x\<lparr>vals := replicate 2 v\<rparr>) (y\<lparr>vals := replicate 3 v\<rparr>))
         = (64, 32)
     \<and> dispatch_widths (is_max_hash_32bits [65536, 65536] 2)
           (is_max_offset_32bits (x\<lparr>vals := replicate 65536 v\<rparr>) (y\<lparr>vals := replicate 65536 v\<rparr>))
         = (64, 64)"
proof -
  have h: "is_max_hash_32bits bshape sd \<longleftrightarrow> prod_list (take sd bshape) \<le> int_max 32"
    by (simp add: is_max_hash_32bits_def max_hash_val_prod [OF assms(1,2)])
  have "wrap 64 (int (nnz x) * int (nnz y)) = int (nnz x) * int (nnz y)"
    using assms(3) by (intro wrap_nonneg_id) simp_all
  then have o: "is_max_offset_32bits x y \<longleftrightarrow> int (nnz x) * int (nnz y) \<le> int_max 32"
    by (simp add: is_max_offset_32bits_def)
  have d: "dispatch_widths (is_max_hash_32bits bshape sd) (is_max_offset_32bits x y)
         = (if prod_list (take sd bshape) \<le> int_max 32 then 32 else 64,
            if int (nnz x) * int (nnz y) \<le> int_max 32 then 32 else 64)"
    by (simp add: h o dispatch_widths_def)
  have k: "kernel_out ops res x y is_commutative
          = kernel_impl ops (if prod_list (take sd bshape) \<le> int_max 32 then 32 else 64)
              (if int (nnz x) * int (nnz y) \<le> int_max 32 then 32 else 64)
              res x y bshape is_commutative"
    if "sd = sparse_dim x \<and> precondition x y \<and> infer_size (sizes x) (sizes y) = Inr bshape"
    using that d by (simp add: kernel_out_def)
  have small: "is_max_hash_32bits [3] 1" 
    by (simp add: is_max_hash_32bits_def max_hash_val_def wrap_def int_max_def)
  have big: "\<not> is_max_hash_32bits [65536, 65536] 2"
    by (simp add: is_max_hash_32bits_def max_hash_val_def wrap_def int_max_def numeral_2_eq_2)
  have few: "is_max_offset_32bits (x\<lparr>vals := replicate 2 v\<rparr>) (y\<lparr>vals := replicate 3 v\<rparr>)"
    by (simp add: is_max_offset_32bits_def nnz_def wrap_def int_max_def)
  have many: "\<not> is_max_offset_32bits (x\<lparr>vals := replicate 65536 v\<rparr>) (y\<lparr>vals := replicate 65536 v\<rparr>)"
    by (simp add: is_max_offset_32bits_def nnz_def wrap_def int_max_def)
  show ?thesis
    apply (intro conjI impI)
           apply (rule h)
          apply (rule o)
         apply (rule d)
        apply (erule k)
       apply (simp only: small few, simp add: dispatch_widths_def)
      apply (simp only: small many, simp add: dispatch_widths_def)
     apply (simp only: big few, simp add: dispatch_widths_def)
    apply (simp only: big many, simp add: dispatch_widths_def)
    done
qed

theorem width_selection_witness:
  "(1::nat) \<le> length [6 :: int]
   \<and> int (nnz scenario_x) * int (nnz scenario_y) \<le> int_max 64
   \<and> is_max_hash_32bits [6] 1 = (prod_list (take 1 [6]) \<le> int_max 32)
   \<and> is_max_offset_32bits scenario_x scenario_y
       = (int (nnz scenario_x) * int (nnz scenario_y) \<le> int_max 32)
   \<and> dispatch_widths (is_max_hash_32bits [6] 1) (is_max_offset_32bits scenario_x scenario_y)
       = (32, 32)
   \<and> precondition scenario_x scenario_y
   \<and> infer_size (sizes scenario_x) (sizes scenario_y) = Inr [6]
   \<and> kernel_out mul_ops scenario_res scenario_x scenario_y True
       = kernel_impl mul_ops 32 32 scenario_res scenario_x scenario_y [6] True"
proof -
  have h1: "(1::nat) \<le> length [6 :: int]" by simp
  have h2: "\<forall>n \<le> 1. \<bar>prod_list (take n [6 :: int])\<bar> \<le> int_max 64"
  proof (intro allI impI)
    fix n :: nat assume "n \<le> 1"
    then have "n = 0 \<or> n = 1" by auto
    then show "\<bar>prod_list (take n [6 :: int])\<bar> \<le> int_max 64"
      by (auto simp: int_max_def)
  qed
  have h3: "int (nnz scenario_x) * int (nnz scenario_y) \<le> int_max 64"
    by (simp add: scenario_x_def scenario_y_def sparse1_def nnz_def int_max_def)
  have p: "prod_list (take 1 [6 :: int]) \<le> int_max 32" by (simp add: int_max_def)
  have q: "int (nnz scenario_x) * int (nnz scenario_y) \<le> int_max 32"
    by (simp add: scenario_x_def scenario_y_def sparse1_def nnz_def int_max_def)
  have pre: "precondition scenario_x scenario_y"
    by (simp add: precondition_def scenario_x_def scenario_y_def sparse1_def)
  have inf: "infer_size (sizes scenario_x) (sizes scenario_y) = Inr [6]"
    by (simp add: infer_size_def scenario_x_def scenario_y_def sparse1_def)
  have sd: "1 = sparse_dim scenario_x" by (simp add: scenario_x_def sparse1_def)
  note T = width_selection [OF h1 h2 h3, of mul_ops scenario_res True]
  from T have a: "is_max_hash_32bits [6] 1 = (prod_list (take 1 [6]) \<le> int_max 32)"
    by (rule conjunct1)
  have b: "is_max_offset_32bits scenario_x scenario_y
       = (int (nnz scenario_x) * int (nnz scenario_y) \<le> int_max 32)"
    by (rule T [THEN conjunct2, THEN conjunct1])
  have c:
    "dispatch_widths (is_max_hash_32bits [6] 1) (is_max_offset_32bits scenario_x scenario_y)
       = (32, 32)"
    using T [THEN conjunct2, THEN conjunct2, THEN conjunct1] p q by simp
  have d: "kernel_out mul_ops scenario_res scenario_x scenario_y True
       = kernel_impl mul_ops 32 32 scenario_res scenario_x scenario_y [6] True"
    using T [THEN conjunct2, THEN conjunct2, THEN conjunct2, THEN conjunct1] p q sd pre inf
    by simp
  show ?thesis by (intro conjI h1 h3 a b c pre inf d)
qed

lemma kernel_impl_error_res:
  "fst (kernel_impl ops hw ow res x y bshape c) = Some e
   \<Longrightarrow> snd (kernel_impl ops hw ow res x y bshape c) = res"
  by (auto simp: kernel_impl_def Let_def split: if_splits sum.splits prod.splits)

text \<open>
  Claim C7. The entry point raises a precondition failure when the inputs are not both
  sparse with equal dimensionality, equal \<open>sparse_dim\<close> and equal sparse shape
  prefixes; past that check and the shape inference it raises a cast failure when the
  promoted result dtype cannot be cast to the dtype of \<open>res\<close>; and whenever an error
  is raised, \<open>res\<close> is what it was before the call.
\<close>

theorem errors_before_mutation:
  "(\<not> precondition x y \<longrightarrow>
      kernel_out ops res x y is_commutative = (Some PreconditionFailure, res))
   \<and> (precondition x y \<and> infer_size (sizes x) (sizes y) = Inr bshape
       \<and> \<not> canCast ops (result_type ops (scalar_type x) (scalar_type y)) (scalar_type res) \<longrightarrow>
      kernel_out ops res x y is_commutative = (Some CastFailure, res))
   \<and> (\<forall>e. fst (kernel_out ops res x y is_commutative) = Some e \<longrightarrow>
          snd (kernel_out ops res x y is_commutative) = res)"
proof (intro conjI allI impI)
  assume "\<not> precondition x y"
  then show "kernel_out ops res x y is_commutative = (Some PreconditionFailure, res)"
    by (simp add: kernel_out_def)
next
  assume "precondition x y \<and> infer_size (sizes x) (sizes y) = Inr bshape
       \<and> \<not> canCast ops (result_type ops (scalar_type x) (scalar_type y)) (scalar_type res)"
  then show "kernel_out ops res x y is_commutative = (Some CastFailure, res)"
    by (simp add: kernel_out_def kernel_impl_def split: prod.splits)
next
  fix e assume e: "fst (kernel_out ops res x y is_commutative) = Some e"
  show "snd (kernel_out ops res x y is_commutative) = res"
  proof (cases "precondition x y")
    case False
    then show ?thesis by (simp add: kernel_out_def)
  next
    case True
    show ?thesis
    proof (cases "infer_size (sizes x) (sizes y)")
      case (Inl err)
      with True show ?thesis by (simp add: kernel_out_def)
    next
      case (Inr bs)
      with True e show ?thesis
        by (auto simp: kernel_out_def Let_def split: prod.splits intro: kernel_impl_error_res)
    qed
  qed
qed

lemma install_fields [simp]:
  "sizes (install sd vdim shape ind vs n flag res) = shape"
  "sparse_dim (install sd vdim shape ind vs n flag res) = sd"
  "dense_dim (install sd vdim shape ind vs n flag res) = vdim - 1"
  "indices (install sd vdim shape ind vs n flag res) = take n ind"
  "vals (install sd vdim shape ind vs n flag res) = take n vs"
  "vals_dim (install sd vdim shape ind vs n flag res) = vdim"
  "is_coalesced (install sd vdim shape ind vs n flag res) = flag"
  "is_sparse (install sd vdim shape ind vs n flag res) = is_sparse res"
  "scalar_type (install sd vdim shape ind vs n flag res) = scalar_type res"
  by (simp_all add: install_def set_coalesced_def set_nnz_and_narrow_def
        set_indices_and_values_unsafe_def raw_resize_def)

lemma kernel_impl_success:
  assumes "fst (kernel_impl ops hw ow res x_in y_in bshape c) = None"
  obtains pc src sel_src res_ind sel_pc ssv spv where
    "canCast ops (result_type ops (scalar_type x_in) (scalar_type y_in)) (scalar_type res)"
    "select_roles ops (if c then x_in else coalesce ops x_in)
        (if c then y_in else coalesce ops y_in) = Inr (pc, src)"
    "select_matches hw ow (sparse_dim pc) src
       (snd (sort_stage pc (indices_hash hw (hash_coeffs hw bshape (sparse_dim pc))
                              (sparse_dim pc) pc)))
       (fst (hash_intersection hw (hash_coeffs hw bshape (sparse_dim pc)) (sparse_dim pc) src
               (fst (sort_stage pc (indices_hash hw (hash_coeffs hw bshape (sparse_dim pc))
                                      (sparse_dim pc) pc)))))
       (snd (hash_intersection hw (hash_coeffs hw bshape (sparse_dim pc)) (sparse_dim pc) src
               (fst (sort_stage pc (indices_hash hw (hash_coeffs hw bshape (sparse_dim pc))
                                      (sparse_dim pc) pc)))))
     = Inr (sel_src, res_ind, sel_pc)"
    "index_select (vals src) sel_src = Inr ssv"
    "index_select (vals pc) sel_pc = Inr spv"
    "snd (kernel_impl ops hw ow res x_in y_in bshape c)
     = install (sparse_dim src) (apply_dim ops (vals_dim src) (vals_dim pc)) bshape res_ind
         (map (to_dtype ops (scalar_type res)) (map2 (apply_op ops) ssv spv))
         (length ssv) (is_coalesced src \<and> is_coalesced pc) res"
  using assms
  by (auto simp: kernel_impl_def Let_def install_def split: if_splits sum.splits prod.splits)

theorem errors_before_mutation_witness:
  "\<not> precondition scenario_x (sparse1 [7] [[2]] [10] True)
   \<and> kernel_out mul_ops scenario_res scenario_x (sparse1 [7] [[2]] [10] True) True
       = (Some PreconditionFailure, scenario_res)
   \<and> precondition (scenario_x\<lparr>scalar_type := 1\<rparr>) scenario_y
   \<and> infer_size (sizes (scenario_x\<lparr>scalar_type := 1\<rparr>)) (sizes scenario_y) = Inr [6]
   \<and> \<not> canCast mul_ops
          (result_type mul_ops (scalar_type (scenario_x\<lparr>scalar_type := 1\<rparr>))
             (scalar_type scenario_y))
          (scalar_type scenario_res)
   \<and> kernel_out mul_ops scenario_res (scenario_x\<lparr>scalar_type := 1\<rparr>) scenario_y True
       = (Some CastFailure, scenario_res)
   \<and> fst (kernel_out mul_ops scenario_res (scenario_x\<lparr>scalar_type := 1\<rparr>) scenario_y True)
       = Some CastFailure
   \<and> snd (kernel_out mul_ops scenario_res (scenario_x\<lparr>scalar_type := 1\<rparr>) scenario_y True)
       = scenario_res"
proof -
  have a: "\<not> precondition scenario_x (sparse1 [7] [[2]] [10] True)"
    by (simp add: precondition_def scenario_x_def sparse1_def)
  have b: "precondition (scenario_x\<lparr>scalar_type := 1\<rparr>) scenario_y"
    by (simp add: precondition_def scenario_x_def scenario_y_def sparse1_def)
  have c: "infer_size (sizes (scenario_x\<lparr>scalar_type := 1\<rparr>)) (sizes scenario_y) = Inr [6]"
    by (simp add: infer_size_def scenario_x_def scenario_y_def sparse1_def)
  have d: "\<not> canCast mul_ops
          (result_type mul_ops (scalar_type (scenario_x\<lparr>scalar_type := 1\<rparr>))
             (scalar_type scenario_y))
          (scalar_type scenario_res)"
    by (simp add: mul_ops_def scenario_x_def scenario_y_def scenario_res_def sparse1_def)
  note T1 = errors_before_mutation
    [of scenario_x "sparse1 [7] [[2]] [10] True" mul_ops scenario_res True "[6]"]
  note T2 = errors_before_mutation
    [of "scenario_x\<lparr>scalar_type := 1\<rparr>" scenario_y mul_ops scenario_res True "[6]"]
  from T1 a have e: "kernel_out mul_ops scenario_res scenario_x (sparse1 [7] [[2]] [10] True) True
       = (Some PreconditionFailure, scenario_res)"
    by blast
  from T2 b c d have f:
    "kernel_out mul_ops scenario_res (scenario_x\<lparr>scalar_type := 1\<rparr>) scenario_y True
       = (Some CastFailure, scenario_res)"
    by blast
  then have g:
    "fst (kernel_out mul_ops scenario_res (scenario_x\<lparr>scalar_type := 1\<rparr>) scenario_y True)
       = Some CastFailure"
    by simp
  with T2 have h:
    "snd (kernel_out mul_ops scenario_res (scenario_x\<lparr>scalar_type := 1\<rparr>) scenario_y True)
       = scenario_res"
    by blast
  show ?thesis by (intro conjI a b c d e f g h)
qed

lemma coalesce_fields [simp]:
  "is_coalesced (coalesce ops t)"
  "scalar_type (coalesce ops t) = scalar_type t"
  "sizes (coalesce ops t) = sizes t"
  "sparse_dim (coalesce ops t) = sparse_dim t"
  "dense_dim (coalesce ops t) = dense_dim t"
  "vals_dim (coalesce ops t) = vals_dim t"
  "is_sparse (coalesce ops t) = is_sparse t"
  by (simp_all add: coalesce_def Let_def)

lemma coalesce_idem: "is_coalesced t \<Longrightarrow> coalesce ops t = t"
  by (simp add: coalesce_def)

lemma select_roles_cases:
  assumes "select_roles ops x y = Inr (pc, src)"
  shows "(pc = x \<and> src = y) \<or> (pc = y \<and> src = x)
       \<or> (pc = coalesce ops x \<and> src = y \<and> is_coalesced x = is_coalesced y)
       \<or> (pc = coalesce ops y \<and> src = x \<and> is_coalesced x = is_coalesced y)"
  using assms by (auto simp: select_roles_def Let_def split: if_splits)

lemma select_roles_flag:
  assumes "select_roles ops x y = Inr (pc, src)"
  shows "(is_coalesced src \<and> is_coalesced pc) = (is_coalesced x \<and> is_coalesced y)"
  using select_roles_cases [OF assms] by auto

text \<open>
  Claim C10. With \<open>is_commutative = false\<close> the implementation runs on the coalesced
  forms of both inputs (it is the commutative run on \<open>coalesce x\<close> and \<open>coalesce y\<close>),
  and whenever it returns a result the coalesced flag of the output is set, whether or
  not the inputs of the caller were coalesced.
\<close>

theorem noncommutative_coalesces:
  "kernel_impl ops hw ow res x y bshape False
     = kernel_impl ops hw ow res (coalesce ops x) (coalesce ops y) bshape True
   \<and> (fst (kernel_impl ops hw ow res x y bshape False) = None \<longrightarrow>
        is_coalesced (snd (kernel_impl ops hw ow res x y bshape False)))
   \<and> (fst (kernel_out ops res x y False) = None \<longrightarrow>
        is_coalesced (snd (kernel_out ops res x y False)))"
proof -
  have a: "kernel_impl ops hw ow res x y bshape False
     = kernel_impl ops hw ow res (coalesce ops x) (coalesce ops y) bshape True"
    for hw ow bshape
    by (simp add: kernel_impl_def)
  have b: "is_coalesced (snd (kernel_impl ops hw ow res x y bshape False))"
    if ok: "fst (kernel_impl ops hw ow res x y bshape False) = None" for hw ow bshape
  proof -
    from ok obtain pc src sel_src res_ind sel_pc ssv spv where
      roles: "select_roles ops (coalesce ops x) (coalesce ops y) = Inr (pc, src)"
      and r: "snd (kernel_impl ops hw ow res x y bshape False)
        = install (sparse_dim src) (apply_dim ops (vals_dim src) (vals_dim pc)) bshape res_ind
         (map (to_dtype ops (scalar_type res)) (map2 (apply_op ops) ssv spv))
         (length ssv) (is_coalesced src \<and> is_coalesced pc) res"
      by (rule kernel_impl_success) simp
    from select_roles_flag [OF roles] show ?thesis by (simp add: r)
  qed
  have c: "is_coalesced (snd (kernel_out ops res x y False))"
    if ok: "fst (kernel_out ops res x y False) = None"
  proof (cases "precondition x y")
    case False
    with ok show ?thesis by (simp add: kernel_out_def)
  next
    case True
    show ?thesis
    proof (cases "infer_size (sizes x) (sizes y)")
      case (Inl err)
      with True ok show ?thesis by (simp add: kernel_out_def)
    next
      case (Inr bs)
      with True ok show ?thesis
        by (auto simp: kernel_out_def Let_def split: prod.splits intro: b)
    qed
  qed
  from a b c show ?thesis by blast
qed

theorem noncommutative_coalesces_witness:
  "\<not> is_coalesced scenario_y
   \<and> fst (kernel_out mul_ops scenario_res scenario_y scenario_y False) = None
   \<and> is_coalesced (snd (kernel_out mul_ops scenario_res scenario_y scenario_y False))
   \<and> indices (snd (kernel_out mul_ops scenario_res scenario_y scenario_y False)) = [[2], [5]]
   \<and> vals (snd (kernel_out mul_ops scenario_res scenario_y scenario_y False)) = [900, 900]"
proof -
  have a: "\<not> is_coalesced scenario_y" by (simp add: scenario_y_def sparse1_def)
  have b: "fst (kernel_out mul_ops scenario_res scenario_y scenario_y False) = None"
    by code_simp
  from noncommutative_coalesces [of mul_ops 32 32 scenario_res scenario_y scenario_y "[6]"] b
  have c: "is_coalesced (snd (kernel_out mul_ops scenario_res scenario_y scenario_y False))"
    by blast
  have d: "indices (snd (kernel_out mul_ops scenario_res scenario_y scenario_y False)) = [[2], [5]]"
    by code_simp
  have e: "vals (snd (kernel_out mul_ops scenario_res scenario_y scenario_y False)) = [900, 900]"
    by code_simp
  show ?thesis by (intro conjI a b c d e)
qed

section \<open>The join and the coalesced form\<close>

lemma sort_with_indices_props:
  "length (fst (sort_with_indices h)) = length h"
  "length (snd (sort_with_indices h)) = length h"
  "sorted (fst (sort_with_indices h))"
  "distinct (snd (sort_with_indices h))"
  "set (snd (sort_with_indices h)) = {0..<length h}"
  "fst (sort_with_indices h) = map (\<lambda>i. h ! i) (snd (sort_with_indices h))"
  by (simp_all add: sort_with_indices_def Let_def)

lemma sort_stage_props:
  assumes "is_coalesced t \<Longrightarrow> sorted h" and "length h = nnz t"
  shows "length (fst (sort_stage t h)) = nnz t"
    and "length (snd (sort_stage t h)) = nnz t"
    and "sorted (fst (sort_stage t h))"
    and "distinct (snd (sort_stage t h))"
    and "set (snd (sort_stage t h)) = {0..<nnz t}"
    and "fst (sort_stage t h) = map (\<lambda>i. h ! i) (snd (sort_stage t h))"
proof -
  show "length (fst (sort_stage t h)) = nnz t"
    using assms(2) by (simp add: sort_stage_def sort_with_indices_props(1))
  show "length (snd (sort_stage t h)) = nnz t"
    using assms(2) by (simp add: sort_stage_def sort_with_indices_props)
  show "sorted (fst (sort_stage t h))"
    using assms(1) by (simp add: sort_stage_def sort_with_indices_props(3))
  show "distinct (snd (sort_stage t h))"
    by (simp add: sort_stage_def sort_with_indices_props)
  show "set (snd (sort_stage t h)) = {0..<nnz t}"
    using assms(2) by (simp add: sort_stage_def sort_with_indices_props)
  show "fst (sort_stage t h) = map (\<lambda>i. h ! i) (snd (sort_stage t h))"
    using assms(2) map_nth [of h] by (simp add: sort_stage_def sort_with_indices_props)
qed

text \<open>The positions of a match range, read through the permutation.\<close>

lemma match_range_set:
  assumes len: "length sh = n" "length as = n"
    and sorted: "sorted sh" and dist: "distinct as" and perm: "set as = {0..<n}"
    and sh: "sh = map (\<lambda>i. h ! i) as"
  shows "distinct (map (\<lambda>p. as ! p)
            [find_bound True sh 0 (length sh) v..<find_bound False sh 0 (length sh) v])"
    and "set (map (\<lambda>p. as ! p)
            [find_bound True sh 0 (length sh) v..<find_bound False sh 0 (length sh) v])
         = {j. j < n \<and> h ! j = v}"
proof -
  define lb where "lb = find_bound True sh 0 (length sh) v"
  define ub where "ub = find_bound False sh 0 (length sh) v"
  note F = find_bound_span [OF sorted, of v, folded lb_def ub_def]
  have ub: "ub \<le> n" using F len by simp
  have span: "sh ! p = v \<longleftrightarrow> lb \<le> p \<and> p < ub" if "p < n" for p
    using F that len by simp
  have nth: "sh ! p = h ! (as ! p)" if "p < n" for p
    using that len by (simp add: sh)
  have inj: "inj_on (\<lambda>p. as ! p) (set [lb..<ub])"
    using dist ub len by (auto simp: inj_on_def nth_eq_iff_index_eq)
  show "distinct (map (\<lambda>p. as ! p) [lb..<ub])"
    using inj by (simp add: distinct_map)
  show "set (map (\<lambda>p. as ! p) [lb..<ub]) = {j. j < n \<and> h ! j = v}"
  proof (intro set_eqI iffI)
    fix j assume "j \<in> set (map (\<lambda>p. as ! p) [lb..<ub])"
    then obtain p where p: "lb \<le> p" "p < ub" and j: "j = as ! p" by auto
    then have pn: "p < n" using ub by simp
    then have "as ! p \<in> set as" using len by simp
    then have "j < n" using perm j by simp
    moreover have "h ! j = v" using span [OF pn] nth [OF pn] p j by simp
    ultimately show "j \<in> {j. j < n \<and> h ! j = v}" by simp
  next
    fix j assume "j \<in> {j. j < n \<and> h ! j = v}"
    then have j: "j < n" "h ! j = v" by simp_all
    then have "j \<in> set as" using perm by simp
    then obtain p where p: "p < n" "as ! p = j" using len by (auto simp: in_set_conv_nth)
    then have "sh ! p = v" using nth [OF p(1)] j by simp
    then have "lb \<le> p \<and> p < ub" using span [OF p(1)] by simp
    then show "j \<in> set (map (\<lambda>p. as ! p) [lb..<ub])" using p by auto
  qed
qed

lemma pairs_concat_props:
  assumes "\<And>k. k < m \<Longrightarrow> distinct (J k)"
  shows "distinct (concat (map (\<lambda>k. map (Pair k) (J k)) [0..<m]))
       \<and> set (concat (map (\<lambda>k. map (Pair k) (J k)) [0..<m])) = {(k, j). k < m \<and> j \<in> set (J k)}
       \<and> sorted (map fst (concat (map (\<lambda>k. map (Pair k) (J k)) [0..<m])))"
  using assms
proof (induction m)
  case 0
  then show ?case by simp
next
  case (Suc m)
  let ?S = "concat (map (\<lambda>k. map (Pair k) (J k)) [0..<m])"
  from Suc have IH: "distinct ?S" "set ?S = {(k, j). k < m \<and> j \<in> set (J k)}"
    "sorted (map fst ?S)"
    by simp_all
  have d: "distinct (map (Pair m) (J m))"
    using Suc.prems [of m] by (simp add: distinct_map inj_on_def)
  have disj: "set ?S \<inter> set (map (Pair m) (J m)) = {}"
    using IH(2) by auto
  have le: "\<forall>x \<in> set (map fst ?S). \<forall>y \<in> set (map fst (map (Pair m) (J m))). x \<le> y"
    using IH(2) by (auto simp: image_iff)
  have s: "sorted (map fst (map (Pair m) (J m)))"
    by (simp add: comp_def sorted_wrt_iff_nth_less)
  have "distinct (?S @ map (Pair m) (J m))" using IH(1) d disj by simp
  moreover have "set (?S @ map (Pair m) (J m)) = {(k, j). k < Suc m \<and> j \<in> set (J k)}"
    using IH(2) by (auto simp: less_Suc_eq)
  moreover have "sorted (map fst (?S @ map (Pair m) (J m)))"
    using IH(3) s le by (simp only: map_append sorted_append)
  ultimately show ?case by simp
qed

lemma concat_map_cong:
  "(\<And>k. k < n \<Longrightarrow> f k = g k) \<Longrightarrow> concat (map f [0..<n]) = concat (map g [0..<n])"
  by (rule arg_cong [where f = concat]) simp

lemma sum_list_bounded:
  "(\<And>k. k < n \<Longrightarrow> f k \<le> (c::int)) \<Longrightarrow> sum_list (map f [0..<n]) \<le> int n * c"
  by (induction n) (simp_all add: algebra_simps add_mono)

lemma join_stage:
  fixes pc src :: "('v, 'd) tensor"
  assumes hw: "0 < hw" and ow: "0 < ow"
    and sd: "sd \<le> length bshape"
    and fitsH: "prod_list (take sd bshape) \<le> int_max hw"
    and pc_cols: "list_all (in_shape (take sd bshape)) (indices pc)"
    and pc_len: "length (indices pc) = nnz pc"
    and src_cols: "list_all (in_shape (take sd bshape)) (indices src)"
    and src_len: "length (indices src) = nnz src"
    and pc_sorted: "is_coalesced pc \<Longrightarrow> sorted_wrt (<) (indices pc)"
    and fitsN: "int (nnz pc) \<le> int_max hw" "int (nnz src) \<le> int_max hw"
    and fitsO: "int (nnz src) * int (nnz pc) \<le> int_max ow"
  shows "\<exists>pairs.
      distinct pairs
    \<and> set pairs = {(k, j). k < nnz src \<and> j < nnz pc \<and> indices src ! k = indices pc ! j}
    \<and> sorted (map fst pairs)
    \<and> select_matches hw ow sd src
         (snd (sort_stage pc (indices_hash hw (hash_coeffs hw bshape sd) sd pc)))
         (fst (hash_intersection hw (hash_coeffs hw bshape sd) sd src
                 (fst (sort_stage pc (indices_hash hw (hash_coeffs hw bshape sd) sd pc)))))
         (snd (hash_intersection hw (hash_coeffs hw bshape sd) sd src
                 (fst (sort_stage pc (indices_hash hw (hash_coeffs hw bshape sd) sd pc)))))
       = Inr (map (\<lambda>(k, j). int k) pairs, map (\<lambda>(k, j). indices src ! k) pairs,
              map (\<lambda>(k, j). int j) pairs)
    \<and> intersection_nnz
         (cumsum ow
           (fst (hash_intersection hw (hash_coeffs hw bshape sd) sd src
                   (fst (sort_stage pc (indices_hash hw (hash_coeffs hw bshape sd) sd pc))))))
       = int (length pairs)"
proof -
  define S where "S = take sd bshape"
  define coeffs where "coeffs = hash_coeffs hw bshape sd"
  define h where "h = indices_hash hw coeffs sd pc"
  define sh where "sh = fst (sort_stage pc h)"
  define as where "as = snd (sort_stage pc h)"
  define np where "np = nnz pc"
  define ns where "ns = nnz src"
  define v where "v k = compute_hash hw coeffs sd (indices src ! k)" for k
  define lb where "lb k = find_bound True sh 0 (length sh) (v k)" for k
  define ub where "ub k = find_bound False sh 0 (length sh) (v k)" for k
  define J where "J k = map (\<lambda>p. as ! p) [lb k..<ub k]" for k
  define cs where "cs = fst (hash_intersection hw coeffs sd src sh)"
  define fs where "fs = snd (hash_intersection hw coeffs sd src sh)"
  define pairs where "pairs = concat (map (\<lambda>k. map (Pair k) (J k)) [0..<ns])"
  \<comment> \<open>the hashes of the probe side\<close>
  have h: "h = map (stride_hash S) (indices pc)"
    unfolding h_def coeffs_def S_def
    by (rule indices_hash_stride [OF hw sd fitsH pc_cols pc_len])
  have hlen: "length h = nnz pc" using pc_len by (simp add: h)
  have hsorted: "sorted h" if "is_coalesced pc"
  proof -
    have "sorted_wrt (<) h"
      unfolding h using pc_sorted [OF that] pc_cols
      by (intro stride_hash_strict_sorted) (simp_all add: S_def)
    then show ?thesis by (rule sorted_wrt_mono_rel [rotated]) simp
  qed
  note st = sort_stage_props [OF hsorted hlen, folded sh_def as_def np_def]
  have shlen: "length sh = np" and aslen: "length as = np" using st by simp_all
  \<comment> \<open>the hashes of the source side\<close>
  have scol: "in_shape S (indices src ! k)" if "k < ns" for k
    using src_cols src_len that by (simp add: list_all_length S_def ns_def)
  have pcol: "in_shape S (indices pc ! j)" if "j < np" for j
    using pc_cols pc_len that by (simp add: list_all_length S_def np_def)
  have v: "v k = stride_hash S (indices src ! k)" if "k < ns" for k
    unfolding v_def coeffs_def S_def
    using scol [OF that] by (intro compute_hash_stride_hash [OF hw sd fitsH]) (simp add: S_def)
  have hj: "h ! j = stride_hash S (indices pc ! j)" if "j < np" for j
    using that pc_len by (simp add: h np_def)
  \<comment> \<open>the match range of a source nonzero\<close>
  note F = find_bound_span [OF st(3)]
  have bounds: "lb k \<le> ub k" "ub k \<le> np" for k
    using F [of "v k"] shlen by (simp_all add: lb_def ub_def)
  have Jd: "distinct (J k)" for k
    unfolding J_def lb_def ub_def
    by (rule match_range_set(1) [OF shlen aslen st(3) st(4) st(5) st(6)])
  have Jset: "set (J k) = {j. j < np \<and> indices src ! k = indices pc ! j}" if "k < ns" for k
  proof -
    have "set (J k) = {j. j < np \<and> h ! j = v k}"
      unfolding J_def lb_def ub_def
      by (rule match_range_set(2) [OF shlen aslen st(3) st(4) st(5) st(6)])
    also have "\<dots> = {j. j < np \<and> indices src ! k = indices pc ! j}"
    proof (intro Collect_cong conj_cong refl)
      fix j assume j: "j < np"
      have "(h ! j = v k) = (stride_hash S (indices src ! k) = stride_hash S (indices pc ! j))"
        by (auto simp: hj [OF j] v [OF that])
      then show "(h ! j = v k) = (indices src ! k = indices pc ! j)"
        by (simp add: stride_hash_eq_iff [OF scol [OF that] pcol [OF j]])
    qed
    finally show ?thesis .
  qed
  have Jlen: "length (J k) = ub k - lb k" for k by (simp add: J_def)
  have Jnth: "J k ! i = as ! (lb k + i)" if "i < ub k - lb k" for k i
    using that by (simp add: J_def)
  have Jlt: "j < np" if "j \<in> set (J k)" for j k
  proof -
    from that obtain p where "p < ub k" "j = as ! p" by (auto simp: J_def)
    then have "j \<in> set as" using bounds(2) [of k] aslen by simp
    then show ?thesis using st(5) by simp
  qed
  \<comment> \<open>the match records\<close>
  have shfit: "int (length sh) \<le> int_max hw" using fitsN(1) shlen by (simp add: np_def)
  have rec: "intersect_one hw coeffs sd sh (indices src ! k) = (int (ub k) - int (lb k), int (lb k))"
    for k
    unfolding lb_def ub_def v_def by (rule intersect_one_eq [OF st(3) hw shfit])
  have cs: "cs = map (\<lambda>k. int (ub k) - int (lb k)) [0..<ns]"
    by (simp add: cs_def hash_intersection_def Let_def rec ns_def comp_def)
  have fs: "fs = map (\<lambda>k. int (lb k)) [0..<ns]"
    by (simp add: fs_def hash_intersection_def Let_def rec ns_def comp_def)
  have cs_nonneg: "\<forall>c \<in> set cs. 0 \<le> c" using bounds(1) by (auto simp: cs)
  have "int (ub k) - int (lb k) \<le> int np" for k
    using bounds [of k] by linarith
  then have "sum_list cs \<le> int ns * int np"
    unfolding cs by (intro sum_list_bounded)
  then have cs_total: "sum_list cs \<le> int_max ow" using fitsO by (simp add: ns_def np_def)
  have range: "0 \<le> fs ! k \<and> nat (fs ! k) + nat (cs ! k) \<le> length as" if "k < nnz src" for k
    using that bounds [of k] aslen by (simp add: cs fs ns_def)
  have cslen: "length cs = nnz src" "length fs = nnz src" by (simp_all add: cs fs ns_def)
  note M = select_matches_eq [OF ow cslen cs_nonneg cs_total range, of hw sd, folded ns_def]
  \<comment> \<open>the three index arrays, through the matched pairs\<close>
  have kfit: "wrap hw (int k) = int k" if "k < ns" for k
    using that fitsN(2) by (intro wrap_nonneg_id [OF hw]) (simp_all add: ns_def)
  have jfit: "wrap hw (int j) = int j" if "j < np" for j
    using that fitsN(1) by (intro wrap_nonneg_id [OF hw]) (simp_all add: np_def)
  have a1: "concat (map (\<lambda>k. replicate (nat (cs ! k)) (wrap hw (int k))) [0..<ns])
            = map (\<lambda>(k, j). int k) pairs"
    unfolding pairs_def map_concat map_map
  proof (rule concat_map_cong)
    fix k assume k: "k < ns"
    have "nat (cs ! k) = length (J k)" using k bounds(1) [of k] by (simp add: cs Jlen)
    then show "replicate (nat (cs ! k)) (wrap hw (int k))
               = (map (\<lambda>(k, j). int k) \<circ> (\<lambda>k. map (Pair k) (J k))) k"
      by (simp add: kfit [OF k] comp_def map_replicate_const)
  qed
  have a2: "concat (map (\<lambda>k. replicate (nat (cs ! k))
                                 (map (\<lambda>d. indices src ! k ! d) [0..<sd])) [0..<ns])
            = map (\<lambda>(k, j). indices src ! k) pairs"
    unfolding pairs_def map_concat map_map
  proof (rule concat_map_cong)
    fix k assume k: "k < ns"
    have n: "nat (cs ! k) = length (J k)" using k bounds(1) [of k] by (simp add: cs Jlen)
    have "length (indices src ! k) = sd"
      using in_shape_length [OF scol [OF k]] sd by (simp add: S_def)
    then have "map (\<lambda>d. indices src ! k ! d) [0..<sd] = indices src ! k"
      using map_nth [of "indices src ! k"] by simp
    then show "replicate (nat (cs ! k)) (map (\<lambda>d. indices src ! k ! d) [0..<sd])
               = (map (\<lambda>(k, j). indices src ! k) \<circ> (\<lambda>k. map (Pair k) (J k))) k"
      by (simp add: n comp_def map_replicate_const)
  qed
  have a3: "concat (map (\<lambda>k. map (\<lambda>i. wrap hw (int (as ! (nat (fs ! k) + i))))
                                      [0..<nat (cs ! k)]) [0..<ns])
            = map (\<lambda>(k, j). int j) pairs"
    unfolding pairs_def map_concat map_map
  proof (rule concat_map_cong)
    fix k assume k: "k < ns"
    have n: "nat (cs ! k) = ub k - lb k" using k bounds(1) [of k] by (simp add: cs)
    have f: "nat (fs ! k) = lb k" using k by (simp add: fs)
    have "map (\<lambda>i. wrap hw (int (as ! (lb k + i)))) [0..<ub k - lb k] = map int (J k)"
    proof (rule nth_equalityI)
      show "length (map (\<lambda>i. wrap hw (int (as ! (lb k + i)))) [0..<ub k - lb k])
            = length (map int (J k))"
        by (simp add: Jlen)
    next
      fix i assume "i < length (map (\<lambda>i. wrap hw (int (as ! (lb k + i)))) [0..<ub k - lb k])"
      then have i: "i < ub k - lb k" by simp
      then have "J k ! i \<in> set (J k)" by (simp add: Jlen)
      then have "J k ! i < np" by (rule Jlt)
      then show "map (\<lambda>i. wrap hw (int (as ! (lb k + i)))) [0..<ub k - lb k] ! i
                 = map int (J k) ! i"
        using i by (simp add: Jlen Jnth jfit)
    qed
    then show "map (\<lambda>i. wrap hw (int (as ! (nat (fs ! k) + i)))) [0..<nat (cs ! k)]
               = (map (\<lambda>(k, j). int j) \<circ> (\<lambda>k. map (Pair k) (J k))) k"
      by (simp add: n f comp_def)
  qed
  \<comment> \<open>the pairs\<close>
  note P = pairs_concat_props [of ns J, OF Jd, folded pairs_def]
  have pset: "set pairs = {(k, j). k < nnz src \<and> j < nnz pc \<and> indices src ! k = indices pc ! j}"
    using P Jset by (auto simp: ns_def np_def)
  have plen: "int (length pairs) = sum_list cs"
  proof -
    have "length (map (\<lambda>(k, j). int k) pairs) = nat (sum_list (take ns cs))"
      unfolding a1 [symmetric] using cs_nonneg cslen
      by (intro length_concat_counts) (simp_all add: ns_def)
    then have "length pairs = nat (sum_list cs)" using cslen by (simp add: ns_def)
    then show ?thesis using cs_nonneg by (simp add: sum_list_nonneg)
  qed
  have nnz: "intersection_nnz (cumsum ow cs) = int (length pairs)"
    using intersection_nnz_cumsum [OF ow cs_nonneg cs_total] plen by simp
  have "distinct pairs \<and> set pairs = {(k, j). k < nnz src \<and> j < nnz pc \<and> indices src ! k = indices pc ! j}
    \<and> sorted (map fst pairs)
    \<and> select_matches hw ow sd src as cs fs
       = Inr (map (\<lambda>(k, j). int k) pairs, map (\<lambda>(k, j). indices src ! k) pairs,
              map (\<lambda>(k, j). int j) pairs)
    \<and> intersection_nnz (cumsum ow cs) = int (length pairs)"
    using P pset M nnz by (simp add: a1 a2 a3)
  then show ?thesis
    unfolding as_def cs_def fs_def sh_def h_def coeffs_def by (rule exI)
qed

lemma merge_duplicates_keys:
  "set (map fst (merge_duplicates f ps)) = set (map fst ps)"
  by (induction f ps rule: merge_duplicates.induct) auto

lemma merge_duplicates_length:
  "length (merge_duplicates f ps) \<le> length ps"
  by (induction f ps rule: merge_duplicates.induct) auto

lemma merge_duplicates_strict:
  "sorted (map fst ps) \<Longrightarrow> sorted_wrt (<) (map fst (merge_duplicates f ps))"
proof (induction f ps rule: merge_duplicates.induct)
  case (1 f)
  then show ?case by simp
next
  case (2 f p)
  then show ?case by simp
next
  case (3 f c1 v1 c2 v2 ps)
  show ?case
  proof (cases "c1 = c2")
    case True
    with 3 show ?thesis by simp
  next
    case False
    with "3.prems" have lt: "c1 < c2" by (simp add: less_le)
    have rest: "sorted (map fst ((c2, v2) # ps))" using "3.prems" by simp
    have "\<forall>k \<in> set (map fst (merge_duplicates f ((c2, v2) # ps))). c1 < k"
      unfolding merge_duplicates_keys using lt "3.prems" by auto
    with "3.IH"(2) [OF False rest] False show ?thesis by simp
  qed
qed

lemma coalesce_indices:
  assumes "length (indices t) = length (vals t)"
  shows "set (indices (coalesce ops t)) = set (indices t)"
    and "length (indices (coalesce ops t)) = length (vals (coalesce ops t))"
    and "nnz (coalesce ops t) \<le> nnz t"
    and "(is_coalesced t \<longrightarrow> sorted_wrt (<) (indices t))
         \<Longrightarrow> sorted_wrt (<) (indices (coalesce ops t))"
proof -
  let ?z = "zip (indices t) (vals t)"
  have keys: "map fst ?z = indices t" using assms by simp
  show "set (indices (coalesce ops t)) = set (indices t)"
    using keys
    by (simp add: coalesce_def Let_def merge_duplicates_keys [simplified] del: map_fst_zip)
       (metis keys list.set_map)
  show "length (indices (coalesce ops t)) = length (vals (coalesce ops t))"
    using assms by (simp add: coalesce_def Let_def)
  have "length (merge_duplicates (add_vals ops) (sort_key fst ?z)) \<le> length (sort_key fst ?z)"
    by (rule merge_duplicates_length)
  then show "nnz (coalesce ops t) \<le> nnz t"
    using assms by (simp add: coalesce_def Let_def nnz_def)
  have "sorted (map fst (sort_key fst ?z))" by (rule sorted_sort_key)
  then have "sorted_wrt (<) (map fst (merge_duplicates (add_vals ops) (sort_key fst ?z)))"
    by (rule merge_duplicates_strict)
  then show "sorted_wrt (<) (indices (coalesce ops t))"
    if "is_coalesced t \<longrightarrow> sorted_wrt (<) (indices t)"
    using that by (simp add: coalesce_def Let_def)
qed

lemma valid_sparse_coalesce:
  assumes "valid_sparse t"
  shows "valid_sparse (coalesce ops t)"
proof -
  from assms have len: "length (indices t) = length (vals t)"
    and s: "is_coalesced t \<longrightarrow> sorted_wrt (<) (indices t)"
    by (simp_all add: valid_sparse_def)
  note C = coalesce_indices [OF len, of ops]
  from assms C(1) C(2) C(4) [OF s] show ?thesis
    by (simp add: valid_sparse_def list_all_iff)
qed

section \<open>A run of the kernel on valid inputs\<close>

lemma select_roles_props:
  assumes roles: "select_roles ops x y = Inr (pc, src)"
    and vx: "valid_sparse x" and vy: "valid_sparse y"
  shows "valid_sparse pc \<and> valid_sparse src
    \<and> (is_coalesced src \<and> is_coalesced pc) = (is_coalesced x \<and> is_coalesced y)
    \<and> ((sparse_dim pc = sparse_dim x \<and> sizes pc = sizes x \<and> set (indices pc) = set (indices x)
          \<and> nnz pc \<le> nnz x
          \<and> sparse_dim src = sparse_dim y \<and> sizes src = sizes y \<and> src = y)
       \<or> (sparse_dim pc = sparse_dim y \<and> sizes pc = sizes y \<and> set (indices pc) = set (indices y)
          \<and> nnz pc \<le> nnz y
          \<and> sparse_dim src = sparse_dim x \<and> sizes src = sizes x \<and> src = x))"
proof -
  from vx have lx: "length (indices x) = length (vals x)" by (simp add: valid_sparse_def)
  from vy have ly: "length (indices y) = length (vals y)" by (simp add: valid_sparse_def)
  note Cx = coalesce_indices(1,3) [OF lx, of ops] valid_sparse_coalesce [OF vx, of ops]
  note Cy = coalesce_indices(1,3) [OF ly, of ops] valid_sparse_coalesce [OF vy, of ops]
  from select_roles_cases [OF roles]
  consider "pc = x \<and> src = y" | "pc = y \<and> src = x"
    | "pc = coalesce ops x \<and> src = y \<and> is_coalesced x = is_coalesced y"
    | "pc = coalesce ops y \<and> src = x \<and> is_coalesced x = is_coalesced y"
    by blast
  then show ?thesis
  proof cases
    case 1
    with vx vy show ?thesis by auto
  next
    case 2
    with vx vy show ?thesis by auto
  next
    case 3
    with vx vy Cx show ?thesis by (auto simp: coalesce_idem)
  next
    case 4
    with vx vy Cy show ?thesis by (auto simp: coalesce_idem)
  qed
qed

lemma index_select_pairs:
  assumes "\<And>p. p \<in> set pairs \<Longrightarrow> f p < length rows"
  shows "index_select rows (map (\<lambda>p. int (f p)) pairs) = Inr (map (\<lambda>p. rows ! f p) pairs)"
  using assms by (simp add: index_select_def list_all_iff comp_def)

lemma kernel_impl_run:
  fixes x_in y_in res :: "('v, 'd) tensor"
  assumes hw: "0 < hw" and ow: "0 < ow"
    and vx: "valid_sparse x_in" and vy: "valid_sparse y_in"
    and sdx: "sparse_dim x_in = sd" and sdy: "sparse_dim y_in = sd"
    and sd: "sd \<le> length bshape"
    and shx: "take sd (sizes x_in) = take sd bshape"
    and shy: "take sd (sizes y_in) = take sd bshape"
    and fitsH: "prod_list (take sd bshape) \<le> int_max hw"
    and fitsN: "int (nnz x_in) \<le> int_max hw" "int (nnz y_in) \<le> int_max hw"
    and fitsO: "int (nnz x_in) * int (nnz y_in) \<le> int_max ow"
    and cast: "canCast ops (result_type ops (scalar_type x_in) (scalar_type y_in)) (scalar_type res)"
    and roles: "select_roles ops (if c then x_in else coalesce ops x_in)
                  (if c then y_in else coalesce ops y_in) = Inr (pc, src)"
  shows "\<exists>pairs.
      distinct pairs
    \<and> set pairs = {(k, j). k < nnz src \<and> j < nnz pc \<and> indices src ! k = indices pc ! j}
    \<and> sorted (map fst pairs)
    \<and> int (length pairs)
       = intersection_nnz
           (cumsum ow
             (fst (hash_intersection hw (hash_coeffs hw bshape sd) sd src
                     (fst (sort_stage pc (indices_hash hw (hash_coeffs hw bshape sd) sd pc))))))
    \<and> kernel_impl ops hw ow res x_in y_in bshape c
       = (None,
          install (sparse_dim src) (apply_dim ops (vals_dim src) (vals_dim pc)) bshape
            (map (\<lambda>(k, j). indices src ! k) pairs)
            (map (\<lambda>(k, j). to_dtype ops (scalar_type res)
                              (apply_op ops (vals src ! k) (vals pc ! j))) pairs)
            (length pairs) (is_coalesced src \<and> is_coalesced pc) res)"
proof -
  define x where "x = (if c then x_in else coalesce ops x_in)"
  define y where "y = (if c then y_in else coalesce ops y_in)"
  have lx: "length (indices x_in) = length (vals x_in)"
    and ly: "length (indices y_in) = length (vals y_in)"
    using vx vy by (simp_all add: valid_sparse_def)
  have vx': "valid_sparse x" and vy': "valid_sparse y"
    using vx vy by (simp_all add: x_def y_def valid_sparse_coalesce)
  have nx: "nnz x \<le> nnz x_in" and ny: "nnz y \<le> nnz y_in"
    using coalesce_indices(3) [OF lx, of ops] coalesce_indices(3) [OF ly, of ops]
    by (simp_all add: x_def y_def)
  have dx: "sparse_dim x = sd" "sizes x = sizes x_in"
    and dy: "sparse_dim y = sd" "sizes y = sizes y_in"
    using sdx sdy by (simp_all add: x_def y_def)
  note R = select_roles_props [OF roles [folded x_def y_def] vx' vy']
  from R have vpc: "valid_sparse pc" and vsrc: "valid_sparse src" by simp_all
  from R dx dy have sdpc: "sparse_dim pc = sd" and sdsrc: "sparse_dim src = sd" by auto
  from R dx dy shx shy have shpc: "take sd (sizes pc) = take sd bshape"
    and shsrc: "take sd (sizes src) = take sd bshape"
    by auto
  from R nx ny have "(nnz pc \<le> nnz x_in \<and> nnz src \<le> nnz y_in)
                   \<or> (nnz pc \<le> nnz y_in \<and> nnz src \<le> nnz x_in)"
    by auto
  then have npc: "int (nnz pc) \<le> int_max hw" and nsrc: "int (nnz src) \<le> int_max hw"
    and nprod: "int (nnz src) * int (nnz pc) \<le> int_max ow"
  proof -
    assume a: "(nnz pc \<le> nnz x_in \<and> nnz src \<le> nnz y_in)
                   \<or> (nnz pc \<le> nnz y_in \<and> nnz src \<le> nnz x_in)"
    from a fitsN show "int (nnz pc) \<le> int_max hw" by auto
    from a fitsN show "int (nnz src) \<le> int_max hw" by auto
    from a have "nnz src * nnz pc \<le> nnz x_in * nnz y_in"
    proof
      assume "nnz pc \<le> nnz x_in \<and> nnz src \<le> nnz y_in"
      then have "nnz pc * nnz src \<le> nnz x_in * nnz y_in" by (intro mult_le_mono) simp_all
      then show ?thesis by (simp add: mult.commute)
    next
      assume "nnz pc \<le> nnz y_in \<and> nnz src \<le> nnz x_in"
      then show ?thesis by (intro mult_le_mono) simp_all
    qed
    then have "int (nnz src) * int (nnz pc) \<le> int (nnz x_in) * int (nnz y_in)"
      by (metis of_nat_le_iff of_nat_mult)
    with fitsO show "int (nnz src) * int (nnz pc) \<le> int_max ow" by simp
  qed
  have pc_cols: "list_all (in_shape (take sd bshape)) (indices pc)"
    and pc_len: "length (indices pc) = nnz pc"
    and pc_sorted: "is_coalesced pc \<Longrightarrow> sorted_wrt (<) (indices pc)"
    using vpc by (simp_all add: valid_sparse_def sdpc shpc nnz_def)
  have src_cols: "list_all (in_shape (take sd bshape)) (indices src)"
    and src_len: "length (indices src) = nnz src"
    using vsrc by (simp_all add: valid_sparse_def sdsrc shsrc nnz_def)
  from join_stage [OF hw ow sd fitsH pc_cols pc_len src_cols src_len pc_sorted npc nsrc nprod]
  obtain pairs where d: "distinct pairs"
    and pset: "set pairs = {(k, j). k < nnz src \<and> j < nnz pc \<and> indices src ! k = indices pc ! j}"
    and srt: "sorted (map fst pairs)"
    and sel: "select_matches hw ow sd src
         (snd (sort_stage pc (indices_hash hw (hash_coeffs hw bshape sd) sd pc)))
         (fst (hash_intersection hw (hash_coeffs hw bshape sd) sd src
                 (fst (sort_stage pc (indices_hash hw (hash_coeffs hw bshape sd) sd pc)))))
         (snd (hash_intersection hw (hash_coeffs hw bshape sd) sd src
                 (fst (sort_stage pc (indices_hash hw (hash_coeffs hw bshape sd) sd pc)))))
       = Inr (map (\<lambda>(k, j). int k) pairs, map (\<lambda>(k, j). indices src ! k) pairs,
              map (\<lambda>(k, j). int j) pairs)"
    and n: "intersection_nnz
         (cumsum ow
           (fst (hash_intersection hw (hash_coeffs hw bshape sd) sd src
                   (fst (sort_stage pc (indices_hash hw (hash_coeffs hw bshape sd) sd pc))))))
       = int (length pairs)"
    by blast
  have in1: "fst p < length (vals src)" and in2: "snd p < length (vals pc)"
    if "p \<in> set pairs" for p
    using that unfolding pset by (auto simp: nnz_def)
  have i1: "index_select (vals src) (map (\<lambda>(k, j). int k) pairs)
            = Inr (map (\<lambda>(k, j). vals src ! k) pairs)"
    using index_select_pairs [of pairs fst "vals src", OF in1]
    by (simp add: case_prod_unfold)
  have i2: "index_select (vals pc) (map (\<lambda>(k, j). int j) pairs)
            = Inr (map (\<lambda>(k, j). vals pc ! j) pairs)"
    using index_select_pairs [of pairs snd "vals pc", OF in2]
    by (simp add: case_prod_unfold)
  have m: "map2 (apply_op ops) (map (\<lambda>(k, j). vals src ! k) pairs)
             (map (\<lambda>(k, j). vals pc ! j) pairs)
           = map (\<lambda>(k, j). apply_op ops (vals src ! k) (vals pc ! j)) pairs"
    by (induction pairs) auto
  have "kernel_impl ops hw ow res x_in y_in bshape c
       = (None,
          install (sparse_dim src) (apply_dim ops (vals_dim src) (vals_dim pc)) bshape
            (map (\<lambda>(k, j). indices src ! k) pairs)
            (map (\<lambda>(k, j). to_dtype ops (scalar_type res)
                              (apply_op ops (vals src ! k) (vals pc ! j))) pairs)
            (length pairs) (is_coalesced src \<and> is_coalesced pc) res)"
    unfolding kernel_impl_def Let_def
    using cast roles
    by (simp add: sdpc sel [unfolded case_prod_unfold] i1 [unfolded case_prod_unfold]
          i2 [unfolded case_prod_unfold] m [unfolded case_prod_unfold]
          install_def comp_def case_prod_unfold)
  with d pset srt n show ?thesis by auto
qed

lemma broadcast_dims_prefix:
  "broadcast_dims a b = Inr r \<Longrightarrow> length a = length b \<Longrightarrow>
     length r = length a \<and> (take n a = take n b \<longrightarrow> take n r = take n a)"
proof (induction a b arbitrary: r n rule: broadcast_dims.induct)
  case (1 a as b bs)
  from "1.prems"(1) obtain r' where ok: "a = b \<or> a = 1 \<or> b = 1"
    and r': "broadcast_dims as bs = Inr r'" and r: "r = (if a = 1 then b else a) # r'"
    by (auto split: if_splits sum.splits)
  from "1.prems"(2) have len: "length as = length bs" by simp
  note IH = "1.IH" [OF ok r' len]
  show ?case
  proof (cases n)
    case 0
    with IH show ?thesis by (simp add: r)
  next
    case (Suc n')
    with IH [of n'] show ?thesis by (auto simp: r)
  qed
qed simp_all

lemma infer_size_prefix:
  assumes "infer_size a b = Inr r" and "length a = length b" and "take n a = take n b"
  shows "length r = length a" and "take n r = take n a"
proof -
  from assms(1,2) have "broadcast_dims a b = Inr r" by (simp add: infer_size_def)
  from broadcast_dims_prefix [OF this assms(2), of n] assms(3)
  show "length r = length a" and "take n r = take n a" by simp_all
qed

lemma dispatch_widths_representable:
  assumes "sd \<le> length bshape"
    and "\<forall>n \<le> sd. \<bar>prod_list (take n bshape)\<bar> \<le> int_max 64"
    and "int (nnz x) * int (nnz y) \<le> int_max 64"
  shows "dispatch_widths (is_max_hash_32bits bshape sd) (is_max_offset_32bits x y)
         = (hash_width bshape sd, offset_width x y)"
proof -
  have h: "is_max_hash_32bits bshape sd \<longleftrightarrow> prod_list (take sd bshape) \<le> int_max 32"
    by (simp add: is_max_hash_32bits_def max_hash_val_prod [OF assms(1,2)])
  have "wrap 64 (int (nnz x) * int (nnz y)) = int (nnz x) * int (nnz y)"
    using assms(3) by (intro wrap_nonneg_id) simp_all
  then have o: "is_max_offset_32bits x y \<longleftrightarrow> int (nnz x) * int (nnz y) \<le> int_max 32"
    by (simp add: is_max_offset_32bits_def)
  show ?thesis by (simp add: h o dispatch_widths_def hash_width_def offset_width_def)
qed

lemma kernel_out_run:
  fixes x y res :: "('v, 'd) tensor"
  assumes vx: "valid_sparse x" and vy: "valid_sparse y"
    and pre: "precondition x y"
    and inf: "infer_size (sizes x) (sizes y) = Inr bshape"
    and rep: "representable x y bshape"
    and cast: "canCast ops (result_type ops (scalar_type x) (scalar_type y)) (scalar_type res)"
    and roles: "select_roles ops (if c then x else coalesce ops x)
                  (if c then y else coalesce ops y) = Inr (pc, src)"
  shows "\<exists>pairs.
      distinct pairs
    \<and> set pairs = {(k, j). k < nnz src \<and> j < nnz pc \<and> indices src ! k = indices pc ! j}
    \<and> sorted (map fst pairs)
    \<and> int (length pairs)
       = intersection_nnz
           (cumsum (offset_width x y)
             (fst (hash_intersection (hash_width bshape (sparse_dim x))
                     (hash_coeffs (hash_width bshape (sparse_dim x)) bshape (sparse_dim x))
                     (sparse_dim x) src
                     (fst (sort_stage pc
                            (indices_hash (hash_width bshape (sparse_dim x))
                               (hash_coeffs (hash_width bshape (sparse_dim x)) bshape
                                  (sparse_dim x))
                               (sparse_dim x) pc))))))
    \<and> kernel_out ops res x y c
       = (None,
          install (sparse_dim src) (apply_dim ops (vals_dim src) (vals_dim pc)) bshape
            (map (\<lambda>(k, j). indices src ! k) pairs)
            (map (\<lambda>(k, j). to_dtype ops (scalar_type res)
                              (apply_op ops (vals src ! k) (vals pc ! j))) pairs)
            (length pairs) (is_coalesced src \<and> is_coalesced pc) res)"
proof -
  define sd where "sd = sparse_dim x"
  define hw where "hw = hash_width bshape sd"
  define ow where "ow = offset_width x y"
  from pre have len: "length (sizes x) = length (sizes y)" and sdy: "sparse_dim y = sd"
    and pref: "take sd (sizes x) = take sd (sizes y)"
    by (auto simp: precondition_def sd_def)
  note I = infer_size_prefix [OF inf len pref]
  from vx have "sd \<le> length (sizes x)" by (simp add: valid_sparse_def sd_def)
  then have sd: "sd \<le> length bshape" using I(1) by simp
  have shx: "take sd (sizes x) = take sd bshape" using I(2) by simp
  have shy: "take sd (sizes y) = take sd bshape" using I(2) pref by simp
  from rep have prods: "\<forall>n \<le> sd. \<bar>prod_list (take n bshape)\<bar> \<le> int_max 64"
    and nprod: "int (nnz x) * int (nnz y) \<le> int_max 64"
    and nx: "int (nnz x) \<le> int_max hw" and ny: "int (nnz y) \<le> int_max hw"
    by (auto simp: representable_def list_all_iff sd_def hw_def)
  have hw: "0 < hw" and ow: "0 < ow" by (simp_all add: hw_def ow_def hash_width_def offset_width_def)
  have fitsH: "prod_list (take sd bshape) \<le> int_max hw"
  proof (cases "prod_list (take sd bshape) \<le> int_max 32")
    case True
    then show ?thesis by (simp add: hw_def hash_width_def)
  next
    case False
    moreover from prods have "\<bar>prod_list (take sd bshape)\<bar> \<le> int_max 64" by simp
    ultimately show ?thesis by (simp add: hw_def hash_width_def)
  qed
  have fitsO: "int (nnz x) * int (nnz y) \<le> int_max ow"
    using nprod by (simp add: ow_def offset_width_def)
  have d: "dispatch_widths (is_max_hash_32bits bshape sd) (is_max_offset_32bits x y) = (hw, ow)"
    unfolding hw_def ow_def by (rule dispatch_widths_representable [OF sd prods nprod])
  have k: "kernel_out ops res x y c = kernel_impl ops hw ow res x y bshape c"
    using pre inf d by (simp add: kernel_out_def sd_def)
  from kernel_impl_run [OF hw ow vx vy sd_def [symmetric] sdy sd shx shy fitsH nx ny fitsO
      cast roles]
  show ?thesis unfolding k hw_def ow_def sd_def .
qed

section \<open>Results on valid inputs\<close>

lemma roles_coordinate_sets:
  assumes vx: "valid_sparse x" and vy: "valid_sparse y"
    and roles: "select_roles ops (if c then x else coalesce ops x)
                  (if c then y else coalesce ops y) = Inr (pc, src)"
  shows "(set (indices pc) = set (indices x) \<and> set (indices src) = set (indices y))
       \<or> (set (indices pc) = set (indices y) \<and> set (indices src) = set (indices x))"
proof -
  define x' where "x' = (if c then x else coalesce ops x)"
  define y' where "y' = (if c then y else coalesce ops y)"
  have lx: "length (indices x) = length (vals x)" and ly: "length (indices y) = length (vals y)"
    using vx vy by (simp_all add: valid_sparse_def)
  have sx: "set (indices x') = set (indices x)" and sy: "set (indices y') = set (indices y)"
    using coalesce_indices(1) [OF lx, of ops] coalesce_indices(1) [OF ly, of ops]
    by (simp_all add: x'_def y'_def)
  have vx': "valid_sparse x'" and vy': "valid_sparse y'"
    using vx vy by (simp_all add: x'_def y'_def valid_sparse_coalesce)
  from select_roles_props [OF roles [folded x'_def y'_def] vx' vy'] sx sy
  show ?thesis by auto
qed


lemma length_cumsum_from: "length (cumsum_from w acc cs) = length cs"
  by (induction cs arbitrary: acc) (simp_all add: Let_def)

lemma length_cumsum: "length (cumsum w cs) = length cs"
  by (simp add: cumsum_def length_cumsum_from)

lemma length_hash_intersection:
  "length (fst (hash_intersection hw coeffs sd src sh)) = nnz src"
  by (simp add: hash_intersection_def Let_def)



text \<open>
  On valid inputs for which role selection returns, the kernel returns a result whose
  number of nonzeros is the last element of the inclusive prefix sum of the match
  counts, 0 when the source side is empty. When no coordinate of \<open>x\<close> is a coordinate
  of \<open>y\<close> the result has no nonzeros. The result has the broadcasted shape, the
  \<open>sparse_dim\<close> of the source and the rank of the result values minus 1 as
  \<open>dense_dim\<close>.
\<close>

lemma result_size_of_run:
  fixes x y res :: "('v, 'd) tensor"
  assumes "valid_sparse x" and "valid_sparse y"
    and "precondition x y"
    and "infer_size (sizes x) (sizes y) = Inr bshape"
    and "representable x y bshape"
    and "canCast ops (result_type ops (scalar_type x) (scalar_type y)) (scalar_type res)"
    and "select_roles ops (if c then x else coalesce ops x)
           (if c then y else coalesce ops y) = Inr (pc, src)"
  shows "\<exists>r counts.
      kernel_out ops res x y c = (None, r)
    \<and> counts = fst (hash_intersection (hash_width bshape (sparse_dim x))
                     (hash_coeffs (hash_width bshape (sparse_dim x)) bshape (sparse_dim x))
                     (sparse_dim x) src
                     (fst (sort_stage pc
                            (indices_hash (hash_width bshape (sparse_dim x))
                               (hash_coeffs (hash_width bshape (sparse_dim x)) bshape
                                  (sparse_dim x))
                               (sparse_dim x) pc))))
    \<and> int (nnz r) = (if nnz src = 0 then 0 else last (cumsum (offset_width x y) counts))
    \<and> (set (indices x) \<inter> set (indices y) = {} \<longrightarrow> nnz r = 0)
    \<and> sizes r = bshape
    \<and> sparse_dim r = sparse_dim src
    \<and> vals_dim r = apply_dim ops (vals_dim src) (vals_dim pc)
    \<and> dense_dim r = vals_dim r - 1"
proof -
  define counts where
    "counts = fst (hash_intersection (hash_width bshape (sparse_dim x))
                     (hash_coeffs (hash_width bshape (sparse_dim x)) bshape (sparse_dim x))
                     (sparse_dim x) src
                     (fst (sort_stage pc
                            (indices_hash (hash_width bshape (sparse_dim x))
                               (hash_coeffs (hash_width bshape (sparse_dim x)) bshape
                                  (sparse_dim x))
                               (sparse_dim x) pc))))"
  define r where
    "r = snd (kernel_out ops res x y c)"
  from kernel_out_run [OF assms, folded counts_def]
  obtain pairs where
    pset: "set pairs = {(k, j). k < nnz src \<and> j < nnz pc \<and> indices src ! k = indices pc ! j}"
    and n: "int (length pairs) = intersection_nnz (cumsum (offset_width x y) counts)"
    and k: "kernel_out ops res x y c
       = (None,
          install (sparse_dim src) (apply_dim ops (vals_dim src) (vals_dim pc)) bshape
            (map (\<lambda>(k, j). indices src ! k) pairs)
            (map (\<lambda>(k, j). to_dtype ops (scalar_type res)
                              (apply_op ops (vals src ! k) (vals pc ! j))) pairs)
            (length pairs) (is_coalesced src \<and> is_coalesced pc) res)"
    by blast
  have len: "length counts = nnz src"
    unfolding counts_def by (rule length_hash_intersection)
  have kr: "kernel_out ops res x y c = (None, r)" by (simp add: r_def k)
  have nr: "nnz r = length pairs" by (simp add: r_def k nnz_def)
  have a: "int (nnz r) = (if nnz src = 0 then 0 else last (cumsum (offset_width x y) counts))"
    using n by (simp add: nr intersection_nnz_def length_cumsum len)
  have b: "nnz r = 0" if disj: "set (indices x) \<inter> set (indices y) = {}"
  proof -
    have "pairs = []"
    proof (cases pairs)
      case Nil
      then show ?thesis .
    next
      case (Cons p ps)
      then have mem: "p \<in> set pairs" by simp
      obtain i j where "p = (i, j)" by (cases p)
      with mem have "(i, j) \<in> set pairs" by simp
      then have ij: "i < nnz src" "j < nnz pc" "indices src ! i = indices pc ! j"
        unfolding pset by simp_all
      have "valid_sparse (if c then x else coalesce ops x)"
        and "valid_sparse (if c then y else coalesce ops y)"
        using assms(1,2) by (simp_all add: valid_sparse_coalesce)
      from select_roles_props [OF assms(7) this] have "valid_sparse pc \<and> valid_sparse src"
        by simp
      then have "length (indices src) = nnz src" "length (indices pc) = nnz pc"
        by (simp_all add: valid_sparse_def nnz_def)
      with ij have "indices src ! i \<in> set (indices src)" "indices src ! i \<in> set (indices pc)"
        by (metis nth_mem)+
      with roles_coordinate_sets [OF assms(1,2,7)] disj show ?thesis by auto
    qed
    then show ?thesis by (simp add: nr)
  qed
  have c: "sizes r = bshape" "sparse_dim r = sparse_dim src"
    "vals_dim r = apply_dim ops (vals_dim src) (vals_dim pc)" "dense_dim r = vals_dim r - 1"
    by (simp_all add: r_def k)
  show ?thesis
    apply (rule exI [of _ r], rule exI [of _ counts])
    apply (intro conjI impI)
           apply (rule kr)
          apply (rule counts_def)
         apply (rule a)
        apply (erule b)
       apply (rule c(1))
      apply (rule c(2))
     apply (rule c(3))
    apply (rule c(4))
    done
qed

lemma result_size_of_run_example:
  "valid_sparse scenario_x \<and> valid_sparse (sparse1 [6] [[1], [5]] [7, 8] True)
   \<and> precondition scenario_x (sparse1 [6] [[1], [5]] [7, 8] True)
   \<and> infer_size (sizes scenario_x) (sizes (sparse1 [6] [[1], [5]] [7, 8] True)) = Inr [6]
   \<and> representable scenario_x (sparse1 [6] [[1], [5]] [7, 8] True) [6]
   \<and> canCast mul_ops
         (result_type mul_ops (scalar_type scenario_x)
            (scalar_type (sparse1 [6] [[1], [5]] [7, 8] True)))
         (scalar_type scenario_res)
   \<and> select_roles mul_ops scenario_x (sparse1 [6] [[1], [5]] [7, 8] True)
       = Inr (scenario_x, sparse1 [6] [[1], [5]] [7, 8] True)
   \<and> set (indices scenario_x) \<inter> set (indices (sparse1 [6] [[1], [5]] [7, 8] True)) = {}
   \<and> kernel_out mul_ops scenario_res scenario_x (sparse1 [6] [[1], [5]] [7, 8] True) True
       = (None, sparse1 [6] [] [] True)
   \<and> (\<exists>r. kernel_out mul_ops scenario_res scenario_x (sparse1 [6] [[1], [5]] [7, 8] True) True
            = (None, r)
          \<and> nnz r = 0 \<and> sizes r = [6]
          \<and> sparse_dim r = sparse_dim (sparse1 [6] [[1], [5]] [7, 8] True)
          \<and> dense_dim r = vals_dim r - 1)"
proof -
  define z where "z = sparse1 [6] [[1], [5]] [7, 8] True"
  have h1: "valid_sparse scenario_x" by code_simp
  have h2: "valid_sparse z" unfolding z_def by code_simp
  have h3: "precondition scenario_x z" unfolding z_def by code_simp
  have h4: "infer_size (sizes scenario_x) (sizes z) = Inr [6]" unfolding z_def by code_simp
  have h5: "representable scenario_x z [6]" unfolding z_def by code_simp
  have h6: "canCast mul_ops (result_type mul_ops (scalar_type scenario_x) (scalar_type z))
         (scalar_type scenario_res)"
    unfolding z_def by code_simp
  have h7: "select_roles mul_ops scenario_x z = Inr (scenario_x, z)"
    unfolding z_def by code_simp
  have h7': "select_roles mul_ops (if True then scenario_x else coalesce mul_ops scenario_x)
           (if True then z else coalesce mul_ops z) = Inr (scenario_x, z)"
    using h7 by simp
  have h8: "set (indices scenario_x) \<inter> set (indices z) = {}"
    by (simp add: z_def scenario_x_def sparse1_def)
  have e: "kernel_out mul_ops scenario_res scenario_x z True = (None, sparse1 [6] [] [] True)"
    unfolding z_def by code_simp
  from result_size_of_run [OF h1 h2 h3 h4 h5 h6 h7'] h8
  have T: "\<exists>r. kernel_out mul_ops scenario_res scenario_x z True = (None, r)
          \<and> nnz r = 0 \<and> sizes r = [6] \<and> sparse_dim r = sparse_dim z
          \<and> dense_dim r = vals_dim r - 1"
    by blast
  show ?thesis
    unfolding z_def [symmetric] by (intro conjI h1 h2 h3 h4 h5 h6 h7 h8 e T)
qed

text \<open>The two matrices are valid inputs of the kernel.\<close>

lemma wide_inputs_valid: "valid_sparse wide_x \<and> valid_sparse wide_y"
  by code_simp

text \<open>
  Claim C6 does not hold on the code. The role selection forms the product of the
  sparse sizes in an accumulator of type \<open>int\<close> and divides the number of nonzeros by
  it. For two coalesced inputs of sizes \<open>65536 \<times> 65536\<close> with one nonzero each, at
  different coordinates, the product \<open>2 ^ 32\<close> is truncated to 0: the kernel ends in
  the division by zero and leaves \<open>res\<close> as it was, where the claim has a result with
  no nonzeros and the broadcasted shape.
\<close>

theorem no_overlap_division_by_zero:
  "precondition wide_x wide_y
   \<and> infer_size (sizes wide_x) (sizes wide_y) = Inr [65536, 65536]
   \<and> representable wide_x wide_y [65536, 65536]
   \<and> canCast mul_ops (result_type mul_ops (scalar_type wide_x) (scalar_type wide_y))
         (scalar_type scenario_res)
   \<and> set (indices wide_x) \<inter> set (indices wide_y) = {}
   \<and> prod_list (take (sparse_dim wide_x) (sizes wide_x)) = 4294967296
   \<and> sparse_dim_numel (sizes wide_x) (sparse_dim wide_x) = 0
   \<and> select_roles mul_ops wide_x wide_y = Inl DivisionByZero
   \<and> kernel_out mul_ops scenario_res wide_x wide_y True
       = (Some DivisionByZero, scenario_res)
   \<and> sizes scenario_res \<noteq> [65536, 65536]"
  by code_simp













lemma strict_sorted_through_pairs:
  assumes srt: "sorted (map fst pairs)" and d: "distinct pairs"
    and pset: "set pairs = {(k, j). k < length xs \<and> j < length ys \<and> xs ! k = ys ! j}"
    and sx: "sorted_wrt (<) xs" and sy: "sorted_wrt (<) (ys :: int list list)"
  shows "sorted_wrt (<) (map (\<lambda>(k, j). xs ! k) pairs)"
proof -
  have dy: "distinct ys" using sy by (simp add: strict_sorted_iff)
  have inj: "inj_on fst (set pairs)"
  proof (rule inj_onI)
    fix p q assume p: "p \<in> set pairs" and q: "q \<in> set pairs" and e: "fst p = fst q"
    from p q have "snd p < length ys" "snd q < length ys" "ys ! snd p = xs ! fst p"
      "ys ! snd q = xs ! fst q"
      unfolding pset by auto
    with e dy have "snd p = snd q" by (metis nth_eq_iff_index_eq)
    with e show "p = q" by (simp add: prod_eq_iff)
  qed
  have "distinct (map fst pairs)" using d inj by (simp add: distinct_map)
  with srt have ks: "sorted_wrt (<) (map fst pairs)" by (simp add: strict_sorted_iff)
  have "sorted_wrt (\<lambda>a b. xs ! a < xs ! b) (map fst pairs)"
  proof (rule sorted_wrt_mono_rel [OF _ ks])
    fix a b assume "a \<in> set (map fst pairs)" "b \<in> set (map fst pairs)" "a < b"
    then have "a < b" "b < length xs" unfolding set_map pset by auto
    with sx show "xs ! a < xs ! b" by (simp add: sorted_wrt_iff_nth_less)
  qed
  then show ?thesis by (simp add: sorted_wrt_map case_prod_unfold)
qed

text \<open>
  Claim C3, as stated, fails: for a non-commutative operator the output is flagged
  coalesced although the input \<open>y\<close> is not coalesced.
\<close>

theorem coalesced_flag_counterexample:
  "is_coalesced scenario_x \<and> \<not> is_coalesced scenario_y
   \<and> kernel_out mul_ops scenario_res scenario_x scenario_y False
       = (None, sparse1 [6] [[2]] [60] True)
   \<and> is_coalesced (sparse1 [6] [[2]] [60] True)"
  by code_simp

text \<open>
  Claim C3, amended. On valid inputs the kernel returns a result whose coalesced flag
  is set iff the operator is non-commutative (both inputs are then coalesced first) or
  both inputs were coalesced; and whenever the flag is set, the index columns of the
  result are in strictly ascending lexicographic order, that is sorted and pairwise
  distinct.
\<close>

theorem coalesced_flag:
  fixes x y res :: "('v, 'd) tensor"
  assumes "valid_sparse x" and "valid_sparse y"
    and "precondition x y"
    and "infer_size (sizes x) (sizes y) = Inr bshape"
    and "representable x y bshape"
    and "canCast ops (result_type ops (scalar_type x) (scalar_type y)) (scalar_type res)"
    and "select_roles ops (if c then x else coalesce ops x)
           (if c then y else coalesce ops y) = Inr (pc, src)"
  shows "\<exists>r.
      kernel_out ops res x y c = (None, r)
    \<and> (is_coalesced r \<longleftrightarrow> \<not> c \<or> (is_coalesced x \<and> is_coalesced y))
    \<and> (is_coalesced r \<longleftrightarrow> is_coalesced src \<and> is_coalesced pc)
    \<and> (is_coalesced r \<longrightarrow> sorted_wrt (<) (indices r) \<and> distinct (indices r))"
proof -
  from kernel_out_run [OF assms]
  obtain pairs where d: "distinct pairs"
    and pset: "set pairs = {(k, j). k < nnz src \<and> j < nnz pc \<and> indices src ! k = indices pc ! j}"
    and srt: "sorted (map fst pairs)"
    and k: "kernel_out ops res x y c
       = (None,
          install (sparse_dim src) (apply_dim ops (vals_dim src) (vals_dim pc)) bshape
            (map (\<lambda>(k, j). indices src ! k) pairs)
            (map (\<lambda>(k, j). to_dtype ops (scalar_type res)
                              (apply_op ops (vals src ! k) (vals pc ! j))) pairs)
            (length pairs) (is_coalesced src \<and> is_coalesced pc) res)"
    by blast
  define r where "r = snd (kernel_out ops res x y c)"
  have kr: "kernel_out ops res x y c = (None, r)" by (simp add: r_def k)
  have ir: "indices r = map (\<lambda>(k, j). indices src ! k) pairs" by (simp add: r_def k)
  have fr: "is_coalesced r \<longleftrightarrow> is_coalesced src \<and> is_coalesced pc" by (simp add: r_def k)
  have "valid_sparse (if c then x else coalesce ops x)"
    and "valid_sparse (if c then y else coalesce ops y)"
    using assms(1,2) by (simp_all add: valid_sparse_coalesce)
  from select_roles_props [OF assms(7) this] have v: "valid_sparse pc" "valid_sparse src"
    by simp_all
  then have len: "length (indices src) = nnz src" "length (indices pc) = nnz pc"
    by (simp_all add: valid_sparse_def nnz_def)
  have flag: "is_coalesced r \<longleftrightarrow> \<not> c \<or> (is_coalesced x \<and> is_coalesced y)"
    using select_roles_flag [OF assms(7)] by (auto simp: fr)
  have sorted: "sorted_wrt (<) (indices r) \<and> distinct (indices r)" if "is_coalesced r"
  proof -
    from that fr v have "sorted_wrt (<) (indices src)" "sorted_wrt (<) (indices pc)"
      by (simp_all add: valid_sparse_def)
    then have "sorted_wrt (<) (indices r)"
      unfolding ir using srt d pset
      by (intro strict_sorted_through_pairs [where xs = "indices src" and ys = "indices pc"])
         (simp_all add: len)
    then show ?thesis by (simp add: strict_sorted_iff)
  qed
  show ?thesis
    apply (rule exI [of _ r])
    apply (intro conjI impI)
        apply (rule kr)
       apply (rule flag)
      apply (rule fr)
     apply (erule sorted [THEN conjunct1])
    apply (erule sorted [THEN conjunct2])
    done
qed

theorem coalesced_flag_witness:
  "valid_sparse scenario_x \<and> valid_sparse (sparse1 [6] [[2], [3], [4]] [10, 20, 30] True)
   \<and> precondition scenario_x (sparse1 [6] [[2], [3], [4]] [10, 20, 30] True)
   \<and> infer_size (sizes scenario_x) (sizes (sparse1 [6] [[2], [3], [4]] [10, 20, 30] True))
       = Inr [6]
   \<and> representable scenario_x (sparse1 [6] [[2], [3], [4]] [10, 20, 30] True) [6]
   \<and> canCast mul_ops
         (result_type mul_ops (scalar_type scenario_x)
            (scalar_type (sparse1 [6] [[2], [3], [4]] [10, 20, 30] True)))
         (scalar_type scenario_res)
   \<and> select_roles mul_ops scenario_x (sparse1 [6] [[2], [3], [4]] [10, 20, 30] True)
       = Inr (scenario_x, sparse1 [6] [[2], [3], [4]] [10, 20, 30] True)
   \<and> kernel_out mul_ops scenario_res scenario_x
         (sparse1 [6] [[2], [3], [4]] [10, 20, 30] True) True
       = (None, sparse1 [6] [[2], [4]] [20, 90] True)
   \<and> (\<exists>r. kernel_out mul_ops scenario_res scenario_x
               (sparse1 [6] [[2], [3], [4]] [10, 20, 30] True) True = (None, r)
          \<and> is_coalesced r \<and> sorted_wrt (<) (indices r) \<and> distinct (indices r))"
proof -
  define z where "z = sparse1 [6] [[2], [3], [4]] [10, 20, 30] True"
  have h1: "valid_sparse scenario_x" by code_simp
  have h2: "valid_sparse z" unfolding z_def by code_simp
  have h3: "precondition scenario_x z" unfolding z_def by code_simp
  have h4: "infer_size (sizes scenario_x) (sizes z) = Inr [6]" unfolding z_def by code_simp
  have h5: "representable scenario_x z [6]" unfolding z_def by code_simp
  have h6: "canCast mul_ops (result_type mul_ops (scalar_type scenario_x) (scalar_type z))
         (scalar_type scenario_res)"
    unfolding z_def by code_simp
  have h7: "select_roles mul_ops scenario_x z = Inr (scenario_x, z)"
    unfolding z_def by code_simp
  have h7': "select_roles mul_ops (if True then scenario_x else coalesce mul_ops scenario_x)
           (if True then z else coalesce mul_ops z) = Inr (scenario_x, z)"
    using h7 by simp
  have cx: "is_coalesced scenario_x \<and> is_coalesced z" unfolding z_def by code_simp
  have e: "kernel_out mul_ops scenario_res scenario_x z True
           = (None, sparse1 [6] [[2], [4]] [20, 90] True)"
    unfolding z_def by code_simp
  from coalesced_flag [OF h1 h2 h3 h4 h5 h6 h7'] cx
  have T: "\<exists>r. kernel_out mul_ops scenario_res scenario_x z True = (None, r)
          \<and> is_coalesced r \<and> sorted_wrt (<) (indices r) \<and> distinct (indices r)"
    by blast
  show ?thesis
    unfolding z_def [symmetric] by (intro conjI h1 h2 h3 h4 h5 h6 h7 e T)
qed

end
